theory Spec2Isabelle
  imports
    Complex_Main
    "HOL-Library.AList"
    "HOL-Library.Char_ord"
    "HOL-Library.List_Lexorder"
    "HOL-Library.Product_Lexorder"
begin

section \<open>Python strings and the builtins the translator uses\<close>

text \<open>
  A Python \<open>str\<close> is a sequence of code points. Here a string is a \<^typ>\<open>string\<close>
  whose characters are the code points below 256 (Latin-1), compared by code point as
  Python compares them. The builtins below are written for that range.
\<close>

text \<open>\<open>str.isspace\<close> on one code point: 9..13, 28..32, 0x85 and 0xA0.\<close>

definition is_space :: "char \<Rightarrow> bool" where
  "is_space c =
     (let n = (of_char c :: nat)
      in (9 \<le> n \<and> n \<le> 13) \<or> (28 \<le> n \<and> n \<le> 32) \<or> n = 133 \<or> n = 160)"

text \<open>\<open>s.strip()\<close>: whitespace removed at both ends.\<close>

definition py_strip :: "string \<Rightarrow> string" where
  "py_strip s = rev (dropWhile is_space (rev (dropWhile is_space s)))"

text \<open>\<open>s.lower()\<close>: A..Z and the capital letters 0xC0..0xDE (but the sign 0xD7).\<close>

definition lower_char :: "char \<Rightarrow> char" where
  "lower_char c =
     (let n = (of_char c :: nat)
      in if (65 \<le> n \<and> n \<le> 90) \<or> (192 \<le> n \<and> n \<le> 222 \<and> n \<noteq> 215)
         then char_of (n + 32) else c)"

definition py_lower :: "string \<Rightarrow> string" where
  "py_lower s = map lower_char s"

text \<open>
  \<open>str.isdecimal\<close> accepts the digits 0..9; \<open>str.isdigit\<close> accepts in addition the
  superscript digits 0xB2, 0xB3 and 0xB9, which \<open>int()\<close> cannot read.
\<close>

definition is_decimal_char :: "char \<Rightarrow> bool" where
  "is_decimal_char c = (let n = (of_char c :: nat) in 48 \<le> n \<and> n \<le> 57)"

definition is_digit_char :: "char \<Rightarrow> bool" where
  "is_digit_char c =
     (let n = (of_char c :: nat) in (48 \<le> n \<and> n \<le> 57) \<or> n = 178 \<or> n = 179 \<or> n = 185)"

definition isdigit :: "string \<Rightarrow> bool" where
  "isdigit s = (s \<noteq> [] \<and> list_all is_digit_char s)"

text \<open>\<open>s.rfind(t)\<close>: the highest index at which \<open>t\<close> occurs in \<open>s\<close>, or \<open>-1\<close>.\<close>

definition occurs_at :: "string \<Rightarrow> string \<Rightarrow> nat \<Rightarrow> bool" where
  "occurs_at s t i = (i + length t \<le> length s \<and> take (length t) (drop i s) = t)"

definition rfind :: "string \<Rightarrow> string \<Rightarrow> int" where
  "rfind s t =
     (case filter (occurs_at s t) (rev [0..<Suc (length s)]) of
        [] \<Rightarrow> - 1
      | i # _ \<Rightarrow> int i)"

section \<open>Result extraction\<close>

text \<open>
  One control token \<open><|...|>\<close> at the head of a string, as the regular expression
  \<open><\|[^|]+\|>\<close> matches it: the two opening characters, one or more characters other
  than the bar, then the two closing characters. The result is what follows the token.
\<close>

definition match_token :: "string \<Rightarrow> string option" where
  "match_token s =
     (case s of
        a # b # r \<Rightarrow>
          if a = CHR ''<'' \<and> b = CHR ''|'' then
            (let body = takeWhile (\<lambda>c. c \<noteq> CHR ''|'') r;
                 r' = dropWhile (\<lambda>c. c \<noteq> CHR ''|'') r
             in if body = [] then None
                else (case r' of
                        c # d # r'' \<Rightarrow> if d = CHR ''>'' then Some r'' else None
                      | _ \<Rightarrow> None))
          else None
      | _ \<Rightarrow> None)"

lemma match_token_shorter: "match_token s = Some r \<Longrightarrow> length r < length s"
proof -
  assume m: "match_token s = Some r"
  then obtain a b t where s: "s = a # b # t"
    by (cases s; simp add: match_token_def split: list.splits)
  let ?d = "dropWhile (\<lambda>c. c \<noteq> CHR ''|'') t"
  from m s obtain c d where d: "?d = c # d # r"
    by (auto simp: match_token_def Let_def split: if_splits list.splits)
  have "length ?d \<le> length t" by (rule length_dropWhile_le)
  with d s show ?thesis by simp
qed

text \<open>The greedy repetition \<open>(?:<\|[^|]+\|>)*\<close>: tokens are taken while one matches.\<close>

function match_tokens :: "string \<Rightarrow> string" where
  "match_tokens s = (case match_token s of None \<Rightarrow> s | Some r \<Rightarrow> match_tokens r)"
  by pat_completeness auto
termination
  by (relation "measure length") (auto dest: match_token_shorter)

declare match_tokens.simps [simp del]

text \<open>
  \<open>re.sub(r'^\s*(?:<\|[^|]+\|>)+', '', out, flags=re.S)\<close>: the pattern is anchored at
  the start, so it matches once or not at all. It needs at least one token after the
  leading whitespace; with none the string is left as it is.
\<close>

definition strip_leading_tokens :: "string \<Rightarrow> string" where
  "strip_leading_tokens s =
     (case match_token (dropWhile is_space s) of
        None \<Rightarrow> s
      | Some r \<Rightarrow> match_tokens r)"

definition final_tokens :: "string list" where
  "final_tokens =
     [''final<|message|>'',
      ''<|channel|>final<|message|>'',
      ''<|start|>assistant<|channel|>final<|message|>'']"

text \<open>The shortest marker; the two others end with it.\<close>

definition marker :: string where
  "marker = ''final<|message|>''"

text \<open>The loop over the markers: the pair (last_idx, last_tok) after each marker.\<close>

fun scan_tokens :: "string \<Rightarrow> string list \<Rightarrow> int \<times> string option \<Rightarrow> int \<times> string option" where
  "scan_tokens s [] acc = acc"
| "scan_tokens s (t # ts) (last_idx, last_tok) =
     (let i = rfind s t
      in scan_tokens s ts (if i > last_idx then (i, Some t) else (last_idx, last_tok)))"

definition extract_final_message_only :: "string \<Rightarrow> string" where
  "extract_final_message_only s =
     (let (last_idx, last_tok) = scan_tokens s final_tokens (- 1, None);
          out = (case last_tok of
                   Some t \<Rightarrow> if last_idx \<noteq> - 1 then drop (nat last_idx + length t) s else s
                 | None \<Rightarrow> s)
      in py_strip (strip_leading_tokens out))"

section \<open>Integers as text\<close>

text \<open>\<open>str(n)\<close> for an integer: decimal digits, with a minus sign below zero.\<close>

fun nat_digits :: "nat \<Rightarrow> string" where
  "nat_digits n =
     (if n < 10 then [char_of (48 + n)]
      else nat_digits (n div 10) @ [char_of (48 + n mod 10)])"

declare nat_digits.simps [simp del]

definition py_str :: "int \<Rightarrow> string" where
  "py_str n = (if n < 0 then CHR ''-'' # nat_digits (nat (- n)) else nat_digits (nat n))"

text \<open>
  \<open>int(s)\<close> in base 10. The text is read between surrounding whitespace (for \<open>int\<close>
  that is 9..13, 32, 0x85 and 0xA0), a sign may come first, and the digits that follow
  may be grouped by single underscores. Anything else raises \<open>ValueError\<close>, here
  \<open>None\<close>.
\<close>

definition is_int_space :: "char \<Rightarrow> bool" where
  "is_int_space c =
     (let n = (of_char c :: nat) in (9 \<le> n \<and> n \<le> 13) \<or> n = 32 \<or> n = 133 \<or> n = 160)"

definition digit_val :: "char \<Rightarrow> nat" where
  "digit_val c = of_char c - 48"

fun digits_val :: "string \<Rightarrow> nat \<Rightarrow> nat option" where
  "digits_val [] acc = Some acc"
| "digits_val [c] acc = (if is_decimal_char c then Some (10 * acc + digit_val c) else None)"
| "digits_val (c # d # cs) acc =
     (if is_decimal_char c then digits_val (d # cs) (10 * acc + digit_val c)
      else if c = CHR ''_'' \<and> is_decimal_char d then digits_val cs (10 * acc + digit_val d)
      else None)"

definition parse_digits :: "string \<Rightarrow> nat option" where
  "parse_digits s =
     (case s of
        [] \<Rightarrow> None
      | c # cs \<Rightarrow> if is_decimal_char c then digits_val cs (digit_val c) else None)"

definition py_int :: "string \<Rightarrow> int option" where
  "py_int s =
     (let t = rev (dropWhile is_int_space (rev (dropWhile is_int_space s)))
      in case t of
           [] \<Rightarrow> None
         | c # cs \<Rightarrow>
             if c = CHR ''-'' then map_option (\<lambda>n. - int n) (parse_digits cs)
             else if c = CHR ''+'' then map_option int (parse_digits cs)
             else map_option int (parse_digits t))"

section \<open>The word store\<close>

datatype py_error = ValueError | KeyError | OSError | CsvError

text \<open>
  A record of the store: the dictionary \<open>{"en": ..., "ja": ..., "count": int, "skip": 0/1}\<close>.
\<close>

record word_info =
  en :: string
  ja :: string
  count :: int
  skip :: int

text \<open>
  The store in memory is a Python \<open>dict\<close> from word to record: a list of pairs with
  distinct keys in insertion order. \<open>db[w] = v\<close> is \<^const>\<open>AList.update\<close> (the value is
  replaced in place, a new key goes to the end) and \<open>db.get(w)\<close> is \<^const>\<open>map_of\<close>.
\<close>

type_synonym word_db = "(string \<times> word_info) list"

text \<open>
  The file \<open>log/word.csv\<close> is held as the rows \<open>csv.writer\<close> was given for it: lists
  of fields, integers written by \<open>str\<close>. A file that does not exist is \<open>None\<close>.
\<close>

type_synonym csv_rows = "string list list"

text \<open>
  \<open>list(csv.reader(f))\<close> gives the rows back, but refuses a field of more characters than
  the field size limit of the \<open>csv\<close> module, 131072: it raises \<open>_csv.Error\<close>.
\<close>

definition field_size_limit :: nat where
  "field_size_limit = 131072"

definition csv_reader :: "csv_rows \<Rightarrow> py_error + csv_rows" where
  "csv_reader rows =
     (if list_ex (list_ex (\<lambda>f. length f > field_size_limit)) rows then Inl CsvError
      else Inr rows)"

definition WORD_HEADER :: "string list" where
  "WORD_HEADER = [''word'', ''en'', ''ja'', ''count'', ''skip'']"

text \<open>\<open>int(x)\<close> inside \<open>try ... except Exception: v = 0\<close>.\<close>

definition int_or_0 :: "string \<Rightarrow> int" where
  "int_or_0 s = (case py_int s of None \<Rightarrow> 0 | Some n \<Rightarrow> n)"

text \<open>\<open>row[i].strip() if len(row) > i else ""\<close>.\<close>

definition stripped_field :: "string list \<Rightarrow> nat \<Rightarrow> string" where
  "stripped_field row i = (if length row > i then py_strip (row ! i) else [])"

text \<open>The loop of the branch for the legacy header \<open>["word","count"]\<close>.\<close>

fun load_legacy :: "csv_rows \<Rightarrow> word_db \<Rightarrow> py_error + word_db" where
  "load_legacy [] db = Inr db"
| "load_legacy (row # rows) db =
     (if row = [] then load_legacy rows db
      else
        let w = py_strip (row ! 0)
        in if length row > 1 \<and> isdigit (row ! 1) then
             (case py_int (row ! 1) of
                None \<Rightarrow> Inl ValueError
              | Some cnt \<Rightarrow>
                  load_legacy rows (AList.update w \<lparr>en = [], ja = [], count = cnt, skip = 0\<rparr> db))
           else load_legacy rows (AList.update w \<lparr>en = [], ja = [], count = 0, skip = 0\<rparr> db))"

text \<open>The loop of the branch for a header that starts \<open>word,en,ja,count\<close>.\<close>

fun load_4col :: "csv_rows \<Rightarrow> word_db \<Rightarrow> word_db" where
  "load_4col [] db = db"
| "load_4col (row # rows) db =
     (if row = [] then load_4col rows db
      else
        let w = py_strip (row ! 0);
            e = stripped_field row 1;
            j = stripped_field row 2;
            cnt = (if length row > 3 then int_or_0 (row ! 3) else 0);
            sk = (if length row > 4 \<and> (row ! 4 = ''0'' \<or> row ! 4 = ''1'') then int_or_0 (row ! 4)
                  else 0)
        in load_4col rows (AList.update w \<lparr>en = e, ja = j, count = cnt, skip = sk\<rparr> db))"

text \<open>The loop shared, word for word, by the 5-column branch and the fallback branch.\<close>

fun load_5col :: "csv_rows \<Rightarrow> word_db \<Rightarrow> word_db" where
  "load_5col [] db = db"
| "load_5col (row # rows) db =
     (if row = [] then load_5col rows db
      else
        let w = py_strip (row ! 0);
            e = stripped_field row 1;
            j = stripped_field row 2;
            cnt = (if length row > 3 then int_or_0 (row ! 3) else 0);
            sk = (if length row > 4 \<and> isdigit (py_strip (row ! 4)) then int_or_0 (row ! 4) else 0)
        in load_5col rows (AList.update w \<lparr>en = e, ja = j, count = cnt, skip = sk\<rparr> db))"

text \<open>The body of \<open>load_word_db\<close> from the rows read on: the header picks the branch.\<close>

definition load_rows :: "csv_rows \<Rightarrow> py_error + word_db" where
  "load_rows all_rows =
     (case all_rows of
        [] \<Rightarrow> Inr []
      | r0 # rows \<Rightarrow>
          let header = map (\<lambda>c. py_lower (py_strip c)) r0
          in if header = [''word'', ''count''] then load_legacy rows []
             else if take 4 header = [''word'', ''en'', ''ja'', ''count''] then Inr (load_4col rows [])
             else if take 5 header = [''word'', ''en'', ''ja'', ''count'', ''skip'']
               then Inr (load_5col rows [])
             else Inr (load_5col rows []))"

definition load_word_db :: "csv_rows option \<Rightarrow> py_error + word_db" where
  "load_word_db file =
     (case file of
        None \<Rightarrow> Inr []
      | Some content \<Rightarrow>
          (case csv_reader content of
             Inl err \<Rightarrow> Inl err
           | Inr rows \<Rightarrow> load_rows rows))"

text \<open>The key of \<open>sorted\<close>: \<open>(-count, word)\<close>, compared as Python compares tuples.\<close>

definition sort_key_of :: "string \<times> word_info \<Rightarrow> int \<times> string" where
  "sort_key_of x = (- count (snd x), fst x)"

definition row_of :: "string \<times> word_info \<Rightarrow> string list" where
  "row_of x = [fst x, en (snd x), ja (snd x), py_str (count (snd x)), py_str (skip (snd x))]"

text \<open>\<open>save_word_db\<close>: the rows written to the file, the header first.\<close>

definition save_word_db :: "word_db \<Rightarrow> csv_rows" where
  "save_word_db db = WORD_HEADER # map row_of (sort_key sort_key_of db)"

section \<open>The archive and the pending records\<close>

text \<open>
  \<open>append_csv_row\<close> on the archive file, held as its rows: the header is written first
  when the file does not exist yet and a header is given.
\<close>

definition append_csv_row :: "csv_rows option \<Rightarrow> string list \<Rightarrow> string list \<Rightarrow> csv_rows option" where
  "append_csv_row file row header =
     (let need_header = (file = None);
          old = (case file of None \<Rightarrow> [] | Some rs \<Rightarrow> rs)
      in Some (old @ (if need_header \<and> header \<noteq> [] then [header] else []) @ [row]))"

definition ARCHIVE_HEADER :: "string list" where
  "ARCHIVE_HEADER = [''Time'', ''Germany'', ''Japanese'', ''English'', ''Spanish'', ''French'']"

text \<open>
  A pending record is the dictionary \<open>{"de": text, "ja": None, "en": None, "es": None,
  "fr": None}\<close>: a map from key to value, the value \<open>None\<close> being Python's \<open>None\<close>.
\<close>

type_synonym pending_record = "string \<rightharpoonup> string option"

definition new_pending :: "string \<Rightarrow> pending_record" where
  "new_pending text =
     [''de'' \<mapsto> Some text, ''ja'' \<mapsto> None, ''en'' \<mapsto> None, ''es'' \<mapsto> None, ''fr'' \<mapsto> None]"

text \<open>\<open>d.get(k) is not None\<close>.\<close>

definition has_value :: "pending_record \<Rightarrow> string \<Rightarrow> bool" where
  "has_value d k = (case d k of Some (Some _) \<Rightarrow> True | _ \<Rightarrow> False)"

text \<open>\<open>d.get(k) or ""\<close>, and a cell as \<open>csv.writer\<close> writes it (\<open>None\<close> as the empty text).\<close>

definition get_or_empty :: "pending_record \<Rightarrow> string \<Rightarrow> string" where
  "get_or_empty d k = (case d k of Some (Some t) \<Rightarrow> t | _ \<Rightarrow> [])"

text \<open>The prompts are fixed texts around the input; only which prompt it is matters here.\<close>

datatype prompt = prompt_ja string | prompt_en string | prompt_word_en string | prompt_word_ja string

text \<open>The calls a worker hands to the user-interface thread with \<open>self.after(0, ...)\<close>.\<close>

datatype ui_event =
    Start_status string
  | Apply_translate_result string string string
  | Show_word int string string string bool
  | Refresh_word_list

text \<open>
  The state of the application that the pipelines read and write: the pending map, the
  files under \<open>log/\<close>, the display window, the callbacks queued for the interface
  thread, and the number of calls made to the client so far. \<open>now\<close> is the reading of
  \<open>time.time()\<close>, a real number of seconds, \<open>sleeps\<close> counts the calls of \<open>time.sleep\<close>,
  and \<open>last_wordflash_time\<close> is the attribute \<open>_last_wordflash_time\<close>. \<open>notified_at\<close> is kept
  for the statements only: the readings of the clock at which the word worker handed a
  word to the display with \<open>self.after(0, ... show_word ...)\<close>.
\<close>

record world =
  pending :: "string \<rightharpoonup> pending_record"
  archive_csv :: "csv_rows option"
  word_csv :: "csv_rows option"
  logs :: "string \<rightharpoonup> string"
  display_lines :: "(string \<times> string) list"
  busy :: "string \<Rightarrow> int"
  pngs :: "string list"
  ui_queue :: "ui_event list"
  client_calls :: nat
  current_sentence :: "string option"
  current_word :: "string option"
  now :: real
  sleeps :: nat
  last_wordflash_time :: real
  notified_at :: "real list"

definition DISABLED_LANGS :: "string set" where
  "DISABLED_LANGS = {''es'', ''fr''}"

definition status_langs :: "string set" where
  "status_langs = {''en'', ''ja'', ''es'', ''fr''}"

definition start_status :: "string \<Rightarrow> world \<Rightarrow> world" where
  "start_status lang w =
     (if lang \<in> DISABLED_LANGS then w
      else if lang \<notin> status_langs then w
      else w\<lparr>busy := (busy w)(lang := busy w lang + 1)\<rparr>)"

definition done_status :: "string \<Rightarrow> world \<Rightarrow> world" where
  "done_status lang w =
     (if lang \<in> DISABLED_LANGS then w
      else if lang \<notin> status_langs then w
      else w\<lparr>busy := (busy w)(lang := max 0 (busy w lang - 1))\<rparr>)"

definition append_line :: "string \<Rightarrow> string \<Rightarrow> world \<Rightarrow> world" where
  "append_line line tag w = w\<lparr>display_lines := display_lines w @ [(line, tag)]\<rparr>"

text \<open>
  \<open>_apply_translate_result\<close>. The lookup of the tag raises \<open>KeyError\<close> for a language
  outside the four; the archive row is appended and the record removed once both
  \<open>"ja"\<close> and \<open>"en"\<close> hold a value.
\<close>

definition apply_translate_result :: "string \<Rightarrow> string \<Rightarrow> string \<Rightarrow> world \<Rightarrow> py_error + world" where
  "apply_translate_result ts14 lang text w0 =
     (let w1 = done_status lang w0
      in if lang \<notin> status_langs then Inl KeyError
         else
           let w2 = append_line text lang w1
           in case pending w2 ts14 of
                None \<Rightarrow> Inr w2
              | Some d0 \<Rightarrow>
                  let d = d0(lang \<mapsto> Some text);
                      w3 = w2\<lparr>pending := (pending w2)(ts14 \<mapsto> d)\<rparr>
                  in if has_value d ''ja'' \<and> has_value d ''en'' then
                       (case d ''de'' of
                          None \<Rightarrow> Inl KeyError
                        | Some de \<Rightarrow>
                            let row = [ts14, get_or_empty d ''de'', get_or_empty d ''ja'',
                                       get_or_empty d ''en'', get_or_empty d ''es'',
                                       get_or_empty d ''fr'']
                            in Inr (w3\<lparr>archive_csv := append_csv_row (archive_csv w3) row ARCHIVE_HEADER,
                                       pending := (pending w3)(ts14 := None)\<rparr>))
                     else Inr w3)"

text \<open>Results applied one after the other, as the interface thread runs its callbacks.\<close>

fun apply_results :: "(string \<times> string \<times> string) list \<Rightarrow> world \<Rightarrow> py_error + world" where
  "apply_results [] w = Inr w"
| "apply_results ((ts14, lang, text) # rs) w =
     (case apply_translate_result ts14 lang text w of
        Inl e \<Rightarrow> Inl e
      | Inr w' \<Rightarrow> apply_results rs w')"

section \<open>The environment of the workers\<close>

text \<open>
  What the workers call outside the program. \<open>respond n m p\<close> is the client's answer to
  the \<open>n\<close>-th call, for model \<open>m\<close> and prompt \<open>p\<close>: the raw text, or (\<open>Inl\<close>) the text of
  the exception it raises. \<open>log_write_fails path\<close> tells whether \<open>write_text\<close> raises
  for that path, \<open>store_write_fails\<close> whether opening \<open>word.csv\<close> for writing raises, and
  \<open>png_fails word\<close> whether the capture of the word's window raises. \<open>latency n\<close> is the
  time the \<open>n\<close>-th call of the client takes, and \<open>oversleep k\<close> the time by which the
  \<open>k\<close>-th \<open>time.sleep\<close> lasts longer than it was asked to. The generation configuration
  is handed to the client unchanged and is left out.
\<close>

record env =
  respond :: "nat \<Rightarrow> string \<Rightarrow> prompt \<Rightarrow> string + string"
  log_write_fails :: "string \<Rightarrow> bool"
  store_write_fails :: bool
  png_fails :: "string \<Rightarrow> bool"
  latency :: "nat \<Rightarrow> real"
  oversleep :: "nat \<Rightarrow> real"

text \<open>
  The client call inside \<open>try ... except Exception as e: raw = f"(error) {e}"\<close>: the raw
  text of the stage for the \<open>n\<close>-th call, and the call itself, which is counted.
\<close>

definition stage_raw :: "env \<Rightarrow> nat \<Rightarrow> string \<Rightarrow> prompt \<Rightarrow> string" where
  "stage_raw ev n m p = (case respond ev n m p of Inr res \<Rightarrow> res | Inl e \<Rightarrow> ''(error) '' @ e)"

definition call_client :: "env \<Rightarrow> string \<Rightarrow> prompt \<Rightarrow> world \<Rightarrow> string \<times> world" where
  "call_client ev m p w =
     (stage_raw ev (client_calls w) m p,
      w\<lparr>client_calls := client_calls w + 1, now := now w + latency ev (client_calls w)\<rparr>)"

text \<open>\<open>time.sleep(d)\<close>: the clock moves on by \<open>d\<close> and by what the sleep lasts longer.\<close>

definition py_sleep :: "env \<Rightarrow> real \<Rightarrow> world \<Rightarrow> world" where
  "py_sleep ev d w = w\<lparr>now := now w + d + oversleep ev (sleeps w), sleeps := sleeps w + 1\<rparr>"

text \<open>\<open>x or y\<close> on texts: the empty text is false.\<close>

definition or_else :: "string \<Rightarrow> string \<Rightarrow> string" where
  "or_else x y = (if x = [] then y else x)"

section \<open>The sentence pipeline\<close>

record sentence_task =
  model_name :: string
  prompt_of :: prompt
  ts14 :: string
  lang :: string
  log_path :: string
  de_text :: string

text \<open>
  One iteration of \<open>_sentence_worker\<close> on a task. \<open>write_text\<close> stands outside the
  \<open>try\<close>, so its exception leaves the loop (\<open>Inl\<close>).
\<close>

definition sentence_step :: "env \<Rightarrow> sentence_task \<Rightarrow> world \<Rightarrow> py_error + world" where
  "sentence_step ev task w0 =
     (let w1 = w0\<lparr>current_sentence := Some (lang task @ '':'' @ take 30 (de_text task))\<rparr>;
          w2 = w1\<lparr>ui_queue := ui_queue w1 @ [Start_status (lang task)]\<rparr>;
          (raw, w3) = call_client ev (model_name task) (prompt_of task) w2
      in if log_write_fails ev (log_path task) then Inl OSError
         else
           let w4 = w3\<lparr>logs := (logs w3)(log_path task \<mapsto> raw)\<rparr>;
               final_text = or_else (extract_final_message_only raw) (py_strip raw);
               w5 = w4\<lparr>ui_queue := ui_queue w4 @
                         [Apply_translate_result (ts14 task) (lang task) final_text]\<rparr>
           in Inr (w5\<lparr>current_sentence := None\<rparr>))"

text \<open>
  The loop of the worker over the tasks of the queue, in order; an empty task is dropped.
  An exception ends the thread, and the tasks behind it are never taken.
\<close>

fun sentence_worker :: "env \<Rightarrow> sentence_task option list \<Rightarrow> world \<Rightarrow> py_error + world" where
  "sentence_worker ev [] w = Inr w"
| "sentence_worker ev (None # q) w = sentence_worker ev q w"
| "sentence_worker ev (Some task # q) w =
     (case sentence_step ev task w of
        Inl e \<Rightarrow> Inl e
      | Inr w' \<Rightarrow> sentence_worker ev q w')"

section \<open>The word pipeline\<close>

record word_task =
  word_model_name :: string
  word :: string

text \<open>\<open>_ask_word\<close>: the client call and its extraction, \<open>or ""\<close>.\<close>

definition ask_word :: "env \<Rightarrow> string \<Rightarrow> prompt \<Rightarrow> world \<Rightarrow> string \<times> world" where
  "ask_word ev m p w =
     (let (raw, w') = call_client ev m p w
      in (or_else (extract_final_message_only raw) [], w'))"

text \<open>\<open>int(db.get(word, {}).get("count", 0))\<close> and the same for \<open>"skip"\<close>.\<close>

definition get_count :: "word_db \<Rightarrow> string \<Rightarrow> int" where
  "get_count db wd = (case map_of db wd of None \<Rightarrow> 0 | Some info \<Rightarrow> count info)"

definition get_skip :: "word_db \<Rightarrow> string \<Rightarrow> int" where
  "get_skip db wd = (case map_of db wd of None \<Rightarrow> 0 | Some info \<Rightarrow> skip info)"

text \<open>
  One iteration of \<open>_word_worker_queue\<close> on a task. \<open>_ask_word\<close> catches every exception
  of the client itself, so the worker's own \<open>except\<close> branch is never taken. The store is
  loaded and saved outside any \<open>try\<close>. Before the notification the worker reads the
  clock, sleeps for what is missing to two seconds since \<open>_last_wordflash_time\<close>, and sets
  that attribute to the clock; the capture of the window is inside
  \<open>try ... except: pass\<close>, and the iteration ends with \<open>time.sleep(0.25)\<close>.
\<close>

definition word_step :: "env \<Rightarrow> word_task \<Rightarrow> world \<Rightarrow> py_error + world" where
  "word_step ev task w0 =
     (let wd = word task;
          w1 = w0\<lparr>current_word := Some wd\<rparr>;
          (e, w2) = ask_word ev (word_model_name task) (prompt_word_en wd) w1;
          (j, w3) = ask_word ev (word_model_name task) (prompt_word_ja wd) w2
      in case load_word_db (word_csv w3) of
           Inl err \<Rightarrow> Inl err
         | Inr db0 \<Rightarrow>
             let prev = get_count db0 wd;
                 sk = get_skip db0 wd;
                 db = AList.update wd \<lparr>en = e, ja = j, count = prev + 1, skip = sk\<rparr> db0
             in if store_write_fails ev then Inl OSError
                else
                  let w4 = w3\<lparr>word_csv := Some (save_word_db db)\<rparr>;
                      count_now = prev + 1;
                      now_t = now w4;
                      elapsed = now_t - last_wordflash_time w4;
                      w4a = (if elapsed < 2 then py_sleep ev (2 - elapsed) w4 else w4);
                      w4b = w4a\<lparr>last_wordflash_time := now w4a\<rparr>;
                      w5 = (if get_skip db wd = 0 then
                              let w' = w4b\<lparr>ui_queue := ui_queue w4b @ [Show_word count_now wd e j False],
                                          notified_at := notified_at w4b @ [now w4b]\<rparr>
                              in if count_now = 1 \<and> \<not> png_fails ev wd
                                 then w'\<lparr>pngs := pngs w' @ [wd]\<rparr> else w'
                            else w4b);
                      w6 = w5\<lparr>ui_queue := ui_queue w5 @ [Refresh_word_list]\<rparr>;
                      w7 = w6\<lparr>current_word := None\<rparr>
                  in Inr (py_sleep ev (1 / 4) w7))"

fun word_worker :: "env \<Rightarrow> word_task option list \<Rightarrow> world \<Rightarrow> py_error + world" where
  "word_worker ev [] w = Inr w"
| "word_worker ev (None # q) w = word_worker ev q w"
| "word_worker ev (Some task # q) w =
     (case word_step ev task w of
        Inl e \<Rightarrow> Inl e
      | Inr w' \<Rightarrow> word_worker ev q w')"

section \<open>The skip toggle\<close>

text \<open>
  The word of a combobox entry: an entry \<open>"word (count)"\<close> is cut at its last \<open>" ("\<close>,
  anything else is taken as the word itself.
\<close>

definition selected_word :: "string \<Rightarrow> string" where
  "selected_word sel_raw =
     (if rfind sel_raw '' ('' \<noteq> - 1 \<and> sel_raw \<noteq> [] \<and> last sel_raw = CHR '')''
      then py_strip (take (nat (rfind sel_raw '' ('')) sel_raw)
      else sel_raw)"

text \<open>The entries \<open>refresh_word_list\<close> puts into the combobox.\<close>

definition combo_entry :: "string \<times> word_info \<Rightarrow> string" where
  "combo_entry x = fst x @ '' ('' @ py_str (count (snd x)) @ '')''"

definition combo_values :: "word_db \<Rightarrow> string list" where
  "combo_values db = map combo_entry (sort_key sort_key_of db)"

datatype toggle_outcome =
    Choose_a_word
  | Choose_a_valid_word
  | No_data string
  | Skip_set string int

text \<open>
  \<open>on_toggle_skip\<close>, from the text of the combobox and the store file to the message
  shown and the store file afterwards.
\<close>

definition on_toggle_skip :: "string \<Rightarrow> csv_rows option \<Rightarrow> py_error + toggle_outcome \<times> csv_rows option" where
  "on_toggle_skip combo file =
     (let sel_raw = py_strip combo
      in if sel_raw = [] then Inr (Choose_a_word, file)
         else
           let wd = selected_word sel_raw
           in if wd = [] then Inr (Choose_a_valid_word, file)
              else
                case load_word_db file of
                  Inl err \<Rightarrow> Inl err
                | Inr db \<Rightarrow>
                    (case map_of db wd of
                       None \<Rightarrow> Inr (No_data wd, file)
                     | Some info \<Rightarrow>
                         let cur = skip info;
                             new = (if cur = 1 then 0 else 1);
                             db' = AList.update wd (info\<lparr>skip := new\<rparr>) db
                         in Inr (Skip_set wd new, Some (save_word_db db'))))"

section \<open>The order and the shape of the saved rows\<close>

text \<open>
  \<open>before a b\<close>: entry \<open>a\<close> may stand before entry \<open>b\<close> in the file, the higher count
  first and the smaller word first among equal counts. An entry is \<open>canonical\<close> when its
  texts carry no whitespace at either end, its skip flag is 0 or 1, its texts are within
  the field size limit of \<open>csv.reader\<close>, and its count has at most 4300 characters, the
  most digits Python from 3.11 on prints or reads for an integer.
\<close>

definition before :: "string \<times> word_info \<Rightarrow> string \<times> word_info \<Rightarrow> bool" where
  "before a b =
     (count (snd a) > count (snd b) \<or> (count (snd a) = count (snd b) \<and> fst a \<le> fst b))"



text \<open>
  The reading \<open>now_t\<close> of the clock in a word task that starts in state \<open>w\<close>, after its two
  client calls, and the value the task gives \<open>_last_wordflash_time\<close>: the reading itself
  when two seconds have passed since the last value, and else the clock after the sleep
  for what is missing.
\<close>

definition read_time :: "env \<Rightarrow> world \<Rightarrow> real" where
  "read_time ev w = now w + latency ev (client_calls w) + latency ev (client_calls w + 1)"

definition next_stamp :: "env \<Rightarrow> world \<Rightarrow> real" where
  "next_stamp ev w =
     (let now_t = read_time ev w;
          elapsed = now_t - last_wordflash_time w
      in if elapsed < 2 then now_t + (2 - elapsed) + oversleep ev (sleeps w) else now_t)"

text \<open>Notifications in the order they were issued, any two of them two seconds apart.\<close>

definition paced :: "real list \<Rightarrow> bool" where
  "paced ts = sorted_wrt (\<lambda>a b. a + 2 \<le> b) ts"

text \<open>A store of three words.\<close>

definition example_db :: word_db where
  "example_db =
     [(''Haus'', \<lparr>en = ''house'', ja = ''ie'', count = 3, skip = 1\<rparr>),
      (''Baum'', \<lparr>en = ''tree'', ja = ''ki'', count = 1, skip = 0\<rparr>),
      (''Apfel'', \<lparr>en = ''apple'', ja = [], count = 1, skip = 0\<rparr>)]"

section \<open>States and environments used in the examples\<close>

text \<open>A client whose answer is a single control token.\<close>

definition token_env :: env where
  "token_env =
     \<lparr>respond = (\<lambda>n m p. Inr ''<|channel|>''),
      log_write_fails = (\<lambda>_. False),
      store_write_fails = False,
      png_fails = (\<lambda>_. True),
      latency = (\<lambda>_. 1 / 2),
      oversleep = (\<lambda>_. 0)\<rparr>"

definition example_task_en :: sentence_task where
  "example_task_en =
     \<lparr>model_name = ''gemma'', prompt_of = prompt_en ''Haus'', ts14 = ''20240101120000'',
      lang = ''en'', log_path = ''log/20240101/240101120000_003_English.log'',
      de_text = ''Haus''\<rparr>"

definition example_task_ja :: sentence_task where
  "example_task_ja =
     \<lparr>model_name = ''gemma'', prompt_of = prompt_ja ''Haus'', ts14 = ''20240101120000'',
      lang = ''ja'', log_path = ''log/20240101/240101120000_002_Japanese.log'',
      de_text = ''Haus''\<rparr>"

definition example_word_task :: word_task where
  "example_word_task = \<lparr>word_model_name = ''gemma'', word = ''Haus''\<rparr>"

definition example_world :: world where
  "example_world =
     \<lparr>pending = [''20240101120000'' \<mapsto> new_pending ''Haus''],
      archive_csv = None,
      word_csv = Some [[''word'', ''en'', ''ja'', ''count'', ''skip''],
                       [''Haus'', ''house'', ''ie'', ''3'', ''1'']],
      logs = Map.empty,
      display_lines = [],
      busy = (\<lambda>_. 0),
      pngs = [],
      ui_queue = [],
      client_calls = 0,
      current_sentence = None,
      current_word = None,
      now = 0,
      sleeps = 0,
      last_wordflash_time = 0,
      notified_at = []\<rparr>"

text \<open>A client that answers the first call and fails from then on.\<close>

definition example_env :: env where
  "example_env =
     \<lparr>respond = (\<lambda>n m p. if n = 0 then Inr ''house; home'' else Inl ''timeout''),
      log_write_fails = (\<lambda>_. False),
      store_write_fails = False,
      png_fails = (\<lambda>_. True),
      latency = (\<lambda>_. 1 / 2),
      oversleep = (\<lambda>_. 0)\<rparr>"

section \<open>Reconciliation of the pending records\<close>

lemma done_status_fields [simp]:
  "pending (done_status l w) = pending w"
  "archive_csv (done_status l w) = archive_csv w"
  by (simp_all add: done_status_def)

lemma append_line_fields [simp]:
  "pending (append_line x l w) = pending w"
  "archive_csv (append_line x l w) = archive_csv w"
  by (simp_all add: append_line_def)




lemma apply_first:
  assumes "pending w ts = Some d" and "l \<in> status_langs"
    and "\<not> (has_value (d(l \<mapsto> Some t)) ''ja'' \<and> has_value (d(l \<mapsto> Some t)) ''en'')"
  shows "\<exists>w1. apply_translate_result ts l t w = Inr w1 \<and> archive_csv w1 = archive_csv w
            \<and> pending w1 ts = Some (d(l \<mapsto> Some t))"
proof -
  let ?d = "d(l \<mapsto> Some t)"
  have no: "(if has_value ?d ''ja'' \<and> has_value ?d ''en'' then A else B) = B"
    for A B :: "py_error + world"
    using assms(3) by (rule if_not_P)
  from assms(1,2) show ?thesis
    unfolding apply_translate_result_def Let_def
    by (simp add: no del: de_Morgan_conj)
qed

lemma apply_last:
  assumes "pending w ts = Some d" and "l \<in> status_langs" and "d ''de'' \<noteq> None" and "l \<noteq> ''de''"
    and "has_value (d(l \<mapsto> Some t)) ''ja''" and "has_value (d(l \<mapsto> Some t)) ''en''"
  shows "\<exists>w2. apply_translate_result ts l t w = Inr w2
            \<and> archive_csv w2 =
                append_csv_row (archive_csv w)
                  (ts # map (get_or_empty (d(l \<mapsto> Some t))) [''de'', ''ja'', ''en'', ''es'', ''fr''])
                  ARCHIVE_HEADER
            \<and> pending w2 ts = None"
  using assms
  by (auto simp add: apply_translate_result_def Let_def)



section \<open>Printing and reading back an integer\<close>

lemma is_decimal_char_of: "(k::nat) < 10 \<Longrightarrow> is_decimal_char (char_of (48 + k))"
  by (simp add: is_decimal_char_def)


lemma nat_digits_decimal: "list_all is_decimal_char (nat_digits n)"
  by (induction n rule: nat_digits.induct) (subst nat_digits.simps, simp add: is_decimal_char_of)






lemma trim_id:
  assumes "s \<noteq> []" and "\<not> P (hd s)" and "\<not> P (last s)"
  shows "rev (dropWhile P (rev (dropWhile P s))) = s"
proof -
  from assms have "dropWhile P s = s" by (cases s) simp_all
  moreover from assms have "dropWhile P (rev s) = rev s"
    by (cases "rev s") (simp_all add: hd_rev [symmetric])
  ultimately show ?thesis by simp
qed


lemma decimal_not_space: "is_decimal_char c \<Longrightarrow> \<not> is_space c"
  by (auto simp: is_decimal_char_def is_space_def Let_def)










section \<open>Saving and loading the word store\<close>

lemma sort_key_of_le: "(sort_key_of a \<le> sort_key_of b) = before a b"
  by (auto simp: sort_key_of_def before_def less_eq_prod_def)

lemma sorted_wrt_before: "sorted_wrt before (sort_key sort_key_of db)"
proof -
  have "sorted (map sort_key_of (sort_key sort_key_of db))" by (rule sorted_sort_key)
  then show ?thesis by (simp add: sorted_map sort_key_of_le)
qed

lemma distinct_keys_sort:
  assumes "distinct (map fst db)"
  shows "distinct (map fst (sort_key sort_key_of db))"
proof -
  from assms have "distinct db" and "inj_on fst (set db)" by (simp_all add: distinct_map)
  then show ?thesis by (simp add: distinct_map)
qed

text \<open>
  Claim C7. For a store whose words are distinct, as the keys of a dictionary are, the
  saved file starts with the header of five fields; after it comes one row for each
  word, the higher count first and the smaller word first among equal counts, and each
  row holds the word, the two translations, the count and the skip flag as integers.
\<close>

theorem save_layout:
  assumes "distinct (map fst db)"
  shows "\<exists>xs. save_word_db db =
                WORD_HEADER #
                map (\<lambda>x. [fst x, en (snd x), ja (snd x), py_str (count (snd x)),
                          py_str (skip (snd x))]) xs \<and>
              length WORD_HEADER = 5 \<and>
              set xs = set db \<and> length xs = length db \<and> distinct (map fst xs) \<and>
              sorted_wrt before xs"
proof -
  have r: "row_of = (\<lambda>x. [fst x, en (snd x), ja (snd x), py_str (count (snd x)),
                          py_str (skip (snd x))])"
    by (rule ext) (simp add: row_of_def)
  from assms show ?thesis
    by (intro exI [of _ "sort_key sort_key_of db"])
       (simp add: save_word_db_def r [symmetric] sorted_wrt_before distinct_keys_sort
          WORD_HEADER_def)
qed






lemma load_word_db_read:
  assumes "csv_reader rows = Inr rows"
  shows "load_word_db (Some rows) = load_rows rows"
  using assms by (simp add: load_word_db_def)

text \<open>The store file of the example state, as it is read and as it loads.\<close>

lemma example_store_loads:
  "load_word_db (word_csv example_world)
     = Inr [(''Haus'', \<lparr>en = ''house'', ja = ''ie'', count = 3, skip = 1\<rparr>)]"
proof -
  let ?rows = "[[''word'', ''en'', ''ja'', ''count'', ''skip''],
                [''Haus'', ''house'', ''ie'', ''3'', ''1'']]"
  have f: "word_csv example_world = Some ?rows" by (simp add: example_world_def)
  have r: "csv_reader ?rows = Inr ?rows" by (simp add: csv_reader_def field_size_limit_def)
  have "load_rows ?rows = Inr [(''Haus'', \<lparr>en = ''house'', ja = ''ie'', count = 3, skip = 1\<rparr>)]"
    by code_simp
  with load_word_db_read [OF r] f show ?thesis by simp
qed

lemma example_db_saved:
  "save_word_db example_db =
     [WORD_HEADER,
      [''Haus'', ''house'', ''ie'', ''3'', ''1''],
      [''Apfel'', ''apple'', [], ''1'', ''0''],
      [''Baum'', ''tree'', ''ki'', ''1'', ''0'']]"
  by code_simp

lemma example_db_loads:
  "load_word_db (Some (save_word_db example_db))
     = Inr [(''Haus'', \<lparr>en = ''house'', ja = ''ie'', count = 3, skip = 1\<rparr>),
            (''Apfel'', \<lparr>en = ''apple'', ja = [], count = 1, skip = 0\<rparr>),
            (''Baum'', \<lparr>en = ''tree'', ja = ''ki'', count = 1, skip = 0\<rparr>)]"
proof -
  let ?rows = "[[''word'', ''en'', ''ja'', ''count'', ''skip''],
      [''Haus'', ''house'', ''ie'', ''3'', ''1''],
      [''Apfel'', ''apple'', [], ''1'', ''0''],
      [''Baum'', ''tree'', ''ki'', ''1'', ''0'']]"
  have s: "save_word_db example_db = ?rows" by (simp add: example_db_saved WORD_HEADER_def)
  have r: "csv_reader ?rows = Inr ?rows" by (simp add: csv_reader_def field_size_limit_def)
  have "load_rows ?rows
     = Inr [(''Haus'', \<lparr>en = ''house'', ja = ''ie'', count = 3, skip = 1\<rparr>),
            (''Apfel'', \<lparr>en = ''apple'', ja = [], count = 1, skip = 0\<rparr>),
            (''Baum'', \<lparr>en = ''tree'', ja = ''ki'', count = 1, skip = 0\<rparr>)]"
    by code_simp
  with load_word_db_read [OF r] s show ?thesis by simp
qed










theorem save_layout_witness:
  "save_word_db example_db =
     [WORD_HEADER,
      [''Haus'', ''house'', ''ie'', ''3'', ''1''],
      [''Apfel'', ''apple'', [], ''1'', ''0''],
      [''Baum'', ''tree'', ''ki'', ''1'', ''0'']]
   \<and> (\<exists>xs. save_word_db example_db =
                WORD_HEADER #
                map (\<lambda>x. [fst x, en (snd x), ja (snd x), py_str (count (snd x)),
                          py_str (skip (snd x))]) xs \<and>
              set xs = set example_db \<and> length xs = length example_db \<and>
              distinct (map fst xs) \<and> sorted_wrt before xs)"
proof -
  have d: "distinct (map fst example_db)" by (simp add: example_db_def)
  have "save_word_db example_db =
     [WORD_HEADER,
      [''Haus'', ''house'', ''ie'', ''3'', ''1''],
      [''Apfel'', ''apple'', [], ''1'', ''0''],
      [''Baum'', ''tree'', ''ki'', ''1'', ''0'']]" by (rule example_db_saved)
  moreover from save_layout [OF d]
  have "\<exists>xs. save_word_db example_db =
                WORD_HEADER #
                map (\<lambda>x. [fst x, en (snd x), ja (snd x), py_str (count (snd x)),
                          py_str (skip (snd x))]) xs \<and>
              set xs = set example_db \<and> length xs = length example_db \<and>
              distinct (map fst xs) \<and> sorted_wrt before xs"
    by blast
  ultimately show ?thesis by (rule conjI)
qed



section \<open>One task of the word pipeline\<close>

lemma load_legacy_distinct:
  "distinct (map fst db) \<Longrightarrow> load_legacy rows db = Inr db' \<Longrightarrow> distinct (map fst db')"
proof (induction rows arbitrary: db)
  case Nil
  then show ?case by simp
next
  case (Cons row rows)
  from Cons.prems(2) show ?case
    by (auto simp: Let_def distinct_update Cons.prems(1) split: if_splits option.splits
        intro!: Cons.IH [rotated])
qed

lemma load_4col_distinct:
  "distinct (map fst db) \<Longrightarrow> distinct (map fst (load_4col rows db))"
  by (induction rows arbitrary: db) (simp_all add: Let_def distinct_update)

lemma load_5col_distinct:
  "distinct (map fst db) \<Longrightarrow> distinct (map fst (load_5col rows db))"
  by (induction rows arbitrary: db) (simp_all add: Let_def distinct_update)

lemma load_word_db_cases:
  assumes "load_word_db file = Inr db"
  shows "(file = None \<and> db = []) \<or> (\<exists>rows. file = Some rows \<and> load_rows rows = Inr db)"
proof (cases "file")
  case None
  with assms show ?thesis by (simp add: load_word_db_def)
next
  case (Some content)
  with assms show ?thesis
    by (auto simp: load_word_db_def csv_reader_def split: if_splits)
qed

lemma load_rows_distinct:
  assumes "load_rows rows = Inr db"
  shows "distinct (map fst db)"
proof (cases rows)
  case Nil
  with assms show ?thesis by (simp add: load_rows_def)
next
  case (Cons r0 rest)
  with assms show ?thesis
    by (auto simp: load_rows_def Let_def load_4col_distinct load_5col_distinct
        split: if_splits dest: load_legacy_distinct [rotated])
qed

lemma load_distinct:
  assumes "load_word_db file = Inr db"
  shows "distinct (map fst db)"
  using load_word_db_cases [OF assms] load_rows_distinct by auto

lemma filter_key_single:
  assumes "distinct (map fst xs)" and "map_of xs k = Some v"
  shows "filter (\<lambda>x. fst x = k) xs = [(k, v)]"
  using assms
proof (induction xs)
  case Nil
  then show ?case by simp
next
  case (Cons x xs)
  show ?case
  proof (cases "fst x = k")
    case True
    with Cons.prems have "x = (k, v)" by (cases x) simp
    moreover from Cons.prems(1) True have "k \<notin> fst ` set xs" by auto
    then have "\<forall>y \<in> set xs. fst y \<noteq> k" by force
    then have "filter (\<lambda>x. fst x = k) xs = []" by (simp add: filter_empty_conv)
    ultimately show ?thesis by simp
  next
    case False
    with Cons show ?thesis by (cases x) auto
  qed
qed

lemma rows_of_word:
  assumes "distinct (map fst db)" and "map_of db k = Some v"
  shows "filter (\<lambda>r. r \<noteq> [] \<and> hd r = k) (tl (save_word_db db)) = [row_of (k, v)]"
proof -
  have "filter (\<lambda>r. r \<noteq> [] \<and> hd r = k) (map row_of (sort_key sort_key_of db))
      = map row_of (filter (\<lambda>x. fst x = k) (sort_key sort_key_of db))"
    by (simp add: filter_map comp_def row_of_def)
  also have "filter (\<lambda>x. fst x = k) (sort_key sort_key_of db)
      = sort_key sort_key_of (filter (\<lambda>x. fst x = k) db)"
    by (rule filter_sort)
  also have "filter (\<lambda>x. fst x = k) db = [(k, v)]" using assms by (rule filter_key_single)
  finally show ?thesis by (simp add: save_word_db_def)
qed

lemma get_skip_update:
  "get_skip (AList.update k v db) k = skip v"
  by (simp add: get_skip_def update_conv')

text \<open>What one task of the word worker leaves behind, field by field.\<close>

lemma ask_word_eq:
  "ask_word ev m p w =
     (or_else (extract_final_message_only (stage_raw ev (client_calls w) m p)) [],
      w\<lparr>client_calls := client_calls w + 1, now := now w + latency ev (client_calls w)\<rparr>)"
  by (simp add: ask_word_def call_client_def)

lemma word_step_effect:
  assumes load: "load_word_db (word_csv w) = Inr db0"
    and save: "\<not> store_write_fails ev"
    and e: "e = or_else (extract_final_message_only
                (stage_raw ev (client_calls w) (word_model_name task) (prompt_word_en (word task)))) []"
    and j: "j = or_else (extract_final_message_only
                (stage_raw ev (client_calls w + 1) (word_model_name task) (prompt_word_ja (word task)))) []"
    and db: "db = AList.update (word task)
                    \<lparr>en = e, ja = j, count = get_count db0 (word task) + 1,
                     skip = get_skip db0 (word task)\<rparr> db0"
  shows "\<exists>w'. word_step ev task w = Inr w' \<and>
           word_csv w' = Some (save_word_db db) \<and>
           client_calls w' = client_calls w + 2 \<and>
           last_wordflash_time w' = next_stamp ev w \<and>
           notified_at w' = notified_at w @
             (if get_skip db0 (word task) = 0 then [next_stamp ev w] else []) \<and>
           now w' = next_stamp ev w + 1 / 4
                    + oversleep ev (if read_time ev w - last_wordflash_time w < 2
                                    then sleeps w + 1 else sleeps w) \<and>
           sleeps w' = (if read_time ev w - last_wordflash_time w < 2
                        then sleeps w + 2 else sleeps w + 1) \<and>
           pending w' = pending w \<and> archive_csv w' = archive_csv w"
proof -
  let ?w3 = "w\<lparr>current_word := Some (word task), client_calls := client_calls w + 2,
                now := read_time ev w\<rparr>"
  have calls: "ask_word ev (word_model_name task) (prompt_word_en (word task))
                 (w\<lparr>current_word := Some (word task)\<rparr>)
               = (e, w\<lparr>current_word := Some (word task), client_calls := client_calls w + 1,
                       now := now w + latency ev (client_calls w)\<rparr>)"
    by (simp add: ask_word_eq e)
  have calls2: "ask_word ev (word_model_name task) (prompt_word_ja (word task))
                 (w\<lparr>current_word := Some (word task), client_calls := client_calls w + 1,
                       now := now w + latency ev (client_calls w)\<rparr>)
               = (j, ?w3)"
    by (simp add: ask_word_eq j read_time_def)
  have l3: "load_word_db (word_csv ?w3) = Inr db0" using load by simp
  have sk: "get_skip (AList.update (word task) v db0) (word task) = skip v" for v
    by (simp add: get_skip_def update_conv')
  show ?thesis
  proof (cases "read_time ev w - last_wordflash_time w < 2")
    case True
    then have n: "next_stamp ev w = read_time ev w + (2 - (read_time ev w - last_wordflash_time w))
                    + oversleep ev (sleeps w)"
      by (simp add: next_stamp_def Let_def)
    show ?thesis
      unfolding word_step_def Let_def calls prod.case calls2 l3 sum.case
      using save True
      by (simp add: db sk n py_sleep_def)
  next
    case False
    then have n: "next_stamp ev w = read_time ev w"
      by (simp add: next_stamp_def Let_def)
    show ?thesis
      unfolding word_step_def Let_def calls prod.case calls2 l3 sum.case
      using save False
      by (simp add: db sk n py_sleep_def)
  qed
qed

text \<open>
  Claim C2. When the store loads and the file can be written, one task for a word writes
  a store in which the word has its count of before plus one (one when it was absent),
  the two translations just obtained from the client, and the skip flag of before (0 when
  it was absent); every other word keeps its record, and the file holds exactly one row
  for the word.
\<close>

theorem word_step_increments:
  assumes load: "load_word_db (word_csv w) = Inr db0"
    and save: "\<not> store_write_fails ev"
    and e: "e = or_else (extract_final_message_only
                (stage_raw ev (client_calls w) (word_model_name task) (prompt_word_en (word task)))) []"
    and j: "j = or_else (extract_final_message_only
                (stage_raw ev (client_calls w + 1) (word_model_name task) (prompt_word_ja (word task)))) []"
    and info: "info = \<lparr>en = e, ja = j, count = get_count db0 (word task) + 1,
                        skip = get_skip db0 (word task)\<rparr>"
  shows "\<exists>w' db. word_step ev task w = Inr w' \<and> word_csv w' = Some (save_word_db db) \<and>
           map_of db (word task) = Some info \<and>
           (\<forall>k. k \<noteq> word task \<longrightarrow> map_of db k = map_of db0 k) \<and>
           filter (\<lambda>r. r \<noteq> [] \<and> hd r = word task) (tl (save_word_db db))
             = [[word task, e, j, py_str (get_count db0 (word task) + 1),
                 py_str (get_skip db0 (word task))]]"
proof -
  let ?db = "AList.update (word task) info db0"
  have d: "distinct (map fst ?db)" using load_distinct [OF load] by (rule distinct_update)
  have m: "map_of ?db (word task) = Some info" by (simp add: update_conv')
  have fr: "\<forall>k. k \<noteq> word task \<longrightarrow> map_of ?db k = map_of db0 k" by (simp add: update_conv')
  have "\<exists>w'. word_step ev task w = Inr w' \<and> word_csv w' = Some (save_word_db ?db)"
    using word_step_effect [OF load save e j, of ?db] by (auto simp: info)
  moreover from rows_of_word [OF d m]
  have "filter (\<lambda>r. r \<noteq> [] \<and> hd r = word task) (tl (save_word_db ?db))
             = [[word task, e, j, py_str (get_count db0 (word task) + 1),
                 py_str (get_skip db0 (word task))]]"
    by (simp add: row_of_def info)
  ultimately show ?thesis using m fr by blast
qed

theorem word_step_increments_witness:
  "\<exists>w' db. word_step example_env example_word_task example_world = Inr w' \<and>
       word_csv w' = Some (save_word_db db) \<and>
       map_of db ''Haus'' = Some \<lparr>en = ''house; home'', ja = ''(error) timeout'', count = 4, skip = 1\<rparr> \<and>
       filter (\<lambda>r. r \<noteq> [] \<and> hd r = ''Haus'') (tl (save_word_db db))
         = [[''Haus'', ''house; home'', ''(error) timeout'', ''4'', ''1'']]"
proof -
  let ?db0 = "[(''Haus'', \<lparr>en = ''house'', ja = ''ie'', count = 3, skip = 1\<rparr>)]"
  have l: "load_word_db (word_csv example_world) = Inr ?db0"
    by (rule example_store_loads)
  have s: "\<not> store_write_fails example_env" by (simp add: example_env_def)
  have e: "''house; home'' = or_else (extract_final_message_only
                (stage_raw example_env (client_calls example_world)
                   (word_model_name example_word_task) (prompt_word_en (word example_word_task)))) []"
    by code_simp
  have j: "''(error) timeout'' = or_else (extract_final_message_only
                (stage_raw example_env (client_calls example_world + 1)
                   (word_model_name example_word_task) (prompt_word_ja (word example_word_task)))) []"
    by code_simp
  have i: "\<lparr>en = ''house; home'', ja = ''(error) timeout'', count = 4, skip = 1\<rparr>
      = \<lparr>en = ''house; home'', ja = ''(error) timeout'',
         count = get_count ?db0 (word example_word_task) + 1,
         skip = get_skip ?db0 (word example_word_task)\<rparr>"
    by (simp add: get_count_def get_skip_def example_word_task_def)
  have w: "word example_word_task = ''Haus''" by (simp add: example_word_task_def)
  have c: "py_str (get_count ?db0 ''Haus'' + 1) = ''4''" by code_simp
  have k: "py_str (get_skip ?db0 ''Haus'') = ''1''" by code_simp
  from word_step_increments [OF l s e j i] show ?thesis
    unfolding w c k by blast
qed


section \<open>Failures inside the worker loops\<close>

text \<open>One task of the sentence worker, as one equation.\<close>

lemma sentence_step_eq:
  "sentence_step ev task w =
     (if log_write_fails ev (log_path task) then Inl OSError
      else Inr (w\<lparr>ui_queue := ui_queue w @
             [Start_status (lang task),
              Apply_translate_result (ts14 task) (lang task)
                (or_else (extract_final_message_only (stage_raw ev (client_calls w) (model_name task) (prompt_of task)))
                   (py_strip (stage_raw ev (client_calls w) (model_name task) (prompt_of task))))],
            logs := (logs w)(log_path task \<mapsto> stage_raw ev (client_calls w) (model_name task) (prompt_of task)),
            client_calls := client_calls w + 1,
            now := now w + latency ev (client_calls w),
            current_sentence := None\<rparr>))"
  unfolding sentence_step_def call_client_def Let_def prod.case
  by simp


lemma sentence_step_effect:
  assumes "\<not> log_write_fails ev (log_path task)"
    and "raw = stage_raw ev (client_calls w) (model_name task) (prompt_of task)"
  shows "\<exists>w'. sentence_step ev task w = Inr w' \<and>
           ui_queue w' = ui_queue w @
             [Start_status (lang task),
              Apply_translate_result (ts14 task) (lang task)
                (or_else (extract_final_message_only raw) (py_strip raw))] \<and>
           logs w' = (logs w)(log_path task \<mapsto> raw) \<and>
           client_calls w' = client_calls w + 1 \<and>
           pending w' = pending w \<and> archive_csv w' = archive_csv w"
  using assms by (simp add: sentence_step_eq)









text \<open>
  The claim as stated fails: with a client that raises and a log directory that cannot be
  written, the task is neither logged nor forwarded, and the worker ends at this task.
\<close>

theorem client_failure_is_stage_result_counterexample:
  "respond (example_env\<lparr>respond := \<lambda>n m p. Inl ''timeout'', log_write_fails := \<lambda>_. True\<rparr>)
      (client_calls example_world) (model_name example_task_en) (prompt_of example_task_en)
      = Inl ''timeout'' \<and>
   sentence_step (example_env\<lparr>respond := \<lambda>n m p. Inl ''timeout'', log_write_fails := \<lambda>_. True\<rparr>)
      example_task_en example_world = Inl OSError \<and>
   sentence_worker (example_env\<lparr>respond := \<lambda>n m p. Inl ''timeout'', log_write_fails := \<lambda>_. True\<rparr>)
      [Some example_task_en, Some example_task_ja] example_world = Inl OSError"
  by (simp add: sentence_step_eq)





lemma word_step_load_fails:
  assumes "load_word_db (word_csv w) = Inl err"
  shows "word_step ev task w = Inl err"
  using assms unfolding word_step_def Let_def ask_word_eq prod.case
  by simp

lemma word_step_save_fails:
  assumes "load_word_db (word_csv w) = Inr loaded" and "store_write_fails ev"
  shows "word_step ev task w = Inl OSError"
  using assms unfolding word_step_def Let_def ask_word_eq prod.case
  by simp







section \<open>The pacing of the word flashes\<close>

text \<open>A task of the word worker that returns has loaded and saved the store.\<close>

lemma word_step_returns:
  assumes "word_step ev task w = Inr w1"
  shows "\<exists>loaded. load_word_db (word_csv w) = Inr loaded \<and> \<not> store_write_fails ev"
proof (cases "load_word_db (word_csv w)")
  case (Inl err)
  from word_step_load_fails [OF this, of ev task] assms show ?thesis by simp
next
  case (Inr loaded)
  show ?thesis
  proof (cases "store_write_fails ev")
    case True
    from word_step_save_fails [OF Inr this, of task] assms show ?thesis by simp
  next
    case False
    with Inr show ?thesis by simp
  qed
qed

lemma next_stamp_gap:
  assumes "0 \<le> oversleep ev (sleeps w)"
  shows "last_wordflash_time w + 2 \<le> next_stamp ev w"
  using assms by (simp add: next_stamp_def Let_def)

lemma paced_snoc: "paced (ts @ [s]) \<longleftrightarrow> paced ts \<and> (\<forall>t \<in> set ts. t + 2 \<le> s)"
  by (auto simp add: paced_def sorted_wrt_append)

lemma word_step_stamp:
  assumes "word_step ev task w = Inr w1"
  shows "last_wordflash_time w1 = next_stamp ev w \<and>
         (notified_at w1 = notified_at w \<or> notified_at w1 = notified_at w @ [next_stamp ev w]) \<and>
         sleeps w1 = (if read_time ev w - last_wordflash_time w < 2 then sleeps w + 2 else sleeps w + 1)"
proof -
  from word_step_returns [OF assms] obtain loaded where
    l: "load_word_db (word_csv w) = Inr loaded" and s: "\<not> store_write_fails ev" by blast
  from word_step_effect [OF l s refl refl refl, of task] assms show ?thesis by auto
qed

lemma word_step_pacing:
  assumes sleep: "\<forall>n. 0 \<le> oversleep ev n"
    and step: "word_step ev task w = Inr w1"
    and inv: "paced (notified_at w)" "\<forall>t \<in> set (notified_at w). t \<le> last_wordflash_time w"
  shows "paced (notified_at w1) \<and> (\<forall>t \<in> set (notified_at w1). t \<le> last_wordflash_time w1) \<and>
         last_wordflash_time w + 2 \<le> last_wordflash_time w1"
proof -
  from word_step_stamp [OF step] have st: "last_wordflash_time w1 = next_stamp ev w"
    and n: "notified_at w1 = notified_at w \<or> notified_at w1 = notified_at w @ [next_stamp ev w]"
    by simp_all
  from sleep have g: "last_wordflash_time w + 2 \<le> next_stamp ev w" by (simp add: next_stamp_gap)
  from n show ?thesis
  proof
    assume "notified_at w1 = notified_at w"
    with inv g st show ?thesis by fastforce
  next
    assume "notified_at w1 = notified_at w @ [next_stamp ev w]"
    with inv g st show ?thesis by (fastforce simp: paced_snoc)
  qed
qed

lemma word_worker_pacing:
  assumes sleep: "\<forall>n. 0 \<le> oversleep ev n"
    and run: "word_worker ev q w = Inr w'"
    and inv: "paced (notified_at w)" "\<forall>t \<in> set (notified_at w). t \<le> last_wordflash_time w"
  shows "paced (notified_at w') \<and> (\<forall>t \<in> set (notified_at w'). t \<le> last_wordflash_time w')"
  using run inv
proof (induction q arbitrary: w)
  case Nil
  then show ?case by simp
next
  case (Cons x q)
  show ?case
  proof (cases x)
    case None
    with Cons show ?thesis by simp
  next
    case (Some t)
    show ?thesis
    proof (cases "word_step ev t w")
      case (Inl err)
      with Cons.prems(1) Some show ?thesis by simp
    next
      case (Inr w1)
      with Cons.prems(1) Some have r: "word_worker ev q w1 = Inr w'" by simp
      from word_step_pacing [OF sleep Inr Cons.prems(2,3)]
      have "paced (notified_at w1)" "\<forall>t \<in> set (notified_at w1). t \<le> last_wordflash_time w1"
        by simp_all
      from Cons.IH [OF r this] show ?thesis .
    qed
  qed
qed

text \<open>
  Claim C8. Let every sleep last at least as long as asked. One task of the word worker that
  reads the clock less than 2 units after the last timestamp sleeps for the remainder (and
  once more at the end of the iteration), and the new timestamp is the reading plus the
  remainder plus what the sleep lasted longer; one that reads it later does not sleep
  before the timestamp, which is the reading. The notification, if the word is not
  skipped, is issued at the new timestamp, and the new timestamp is at least 2 units
  after the last one. So in a run of the word worker over a queue, starting with
  notifications that are 2 units apart and not after the last timestamp, any two
  notifications are at least 2 units apart.
\<close>

theorem word_flash_pacing:
  assumes sleep: "\<forall>n. 0 \<le> oversleep ev n"
    and step: "word_step ev task w = Inr w1"
    and run: "word_worker ev q w = Inr w'"
    and inv: "paced (notified_at w)" "\<forall>t \<in> set (notified_at w). t \<le> last_wordflash_time w"
  shows "(read_time ev w - last_wordflash_time w < 2 \<longrightarrow>
            sleeps w1 = sleeps w + 2 \<and>
            last_wordflash_time w1 =
              read_time ev w + (2 - (read_time ev w - last_wordflash_time w)) + oversleep ev (sleeps w)) \<and>
         (\<not> read_time ev w - last_wordflash_time w < 2 \<longrightarrow>
            sleeps w1 = sleeps w + 1 \<and> last_wordflash_time w1 = read_time ev w) \<and>
         (notified_at w1 = notified_at w \<or>
          notified_at w1 = notified_at w @ [last_wordflash_time w1]) \<and>
         last_wordflash_time w + 2 \<le> last_wordflash_time w1 \<and>
         paced (notified_at w') \<and>
         (\<forall>t \<in> set (notified_at w'). t \<le> last_wordflash_time w')"
proof -
  from word_step_stamp [OF step] have st: "last_wordflash_time w1 = next_stamp ev w"
    and n: "notified_at w1 = notified_at w \<or> notified_at w1 = notified_at w @ [next_stamp ev w]"
    and sl: "sleeps w1 = (if read_time ev w - last_wordflash_time w < 2 then sleeps w + 2 else sleeps w + 1)"
    by simp_all
  have 1: "read_time ev w - last_wordflash_time w < 2 \<longrightarrow>
            sleeps w1 = sleeps w + 2 \<and>
            last_wordflash_time w1 =
              read_time ev w + (2 - (read_time ev w - last_wordflash_time w)) + oversleep ev (sleeps w)"
    using st sl by (simp add: next_stamp_def Let_def)
  have 2: "\<not> read_time ev w - last_wordflash_time w < 2 \<longrightarrow>
            sleeps w1 = sleeps w + 1 \<and> last_wordflash_time w1 = read_time ev w"
    using st sl by (simp add: next_stamp_def Let_def)
  from n st have 3: "notified_at w1 = notified_at w \<or>
          notified_at w1 = notified_at w @ [last_wordflash_time w1]" by simp
  from word_step_pacing [OF sleep step inv]
  have 4: "last_wordflash_time w + 2 \<le> last_wordflash_time w1" by simp
  from word_worker_pacing [OF sleep run inv] 1 2 3 4 show ?thesis by blast
qed


text \<open>
  Two new words asked one after the other, with an empty store, a client that takes half
  a unit for each call, and sleeps that last as long as asked: the first word is shown
  at time 2, the second at time 4.
\<close>

lemma two_words_run:
  "\<exists>w1 w2.
     word_step example_env example_word_task (example_world\<lparr>word_csv := None\<rparr>) = Inr w1 \<and>
     word_step example_env \<lparr>word_model_name = ''gemma'', word = ''Baum''\<rparr> w1 = Inr w2 \<and>
     sleeps w1 = 2 \<and> last_wordflash_time w1 = 2 \<and>
     notified_at w2 = [2, 4] \<and> last_wordflash_time w2 = 4"
proof -
  let ?w = "example_world\<lparr>word_csv := None\<rparr>"
  let ?t = "\<lparr>word_model_name = ''gemma'', word = ''Baum''\<rparr>"
  let ?db = "[(''Haus'', \<lparr>en = ''house; home'', ja = ''(error) timeout'', count = 1, skip = 0\<rparr>)]"
  let ?rows = "[[''word'', ''en'', ''ja'', ''count'', ''skip''],
                [''Haus'', ''house; home'', ''(error) timeout'', ''1'', ''0'']]"
  have l0: "load_word_db (word_csv ?w) = Inr []" by (simp add: load_word_db_def)
  have s: "\<not> store_write_fails example_env" by (simp add: example_env_def)
  have c0: "client_calls ?w = 0" by (simp add: example_world_def)
  have e1: "''house; home'' = or_else (extract_final_message_only
                (stage_raw example_env (client_calls ?w) (word_model_name example_word_task)
                   (prompt_word_en (word example_word_task)))) []"
    unfolding c0 by code_simp
  have j1: "''(error) timeout'' = or_else (extract_final_message_only
                (stage_raw example_env (client_calls ?w + 1) (word_model_name example_word_task)
                   (prompt_word_ja (word example_word_task)))) []"
    unfolding c0 by code_simp
  have d1: "?db = AList.update (word example_word_task)
                    \<lparr>en = ''house; home'', ja = ''(error) timeout'',
                     count = get_count [] (word example_word_task) + 1,
                     skip = get_skip [] (word example_word_task)\<rparr> []"
    by (simp add: example_word_task_def get_count_def get_skip_def)
  have n1: "next_stamp example_env ?w = 2"
    by (simp add: next_stamp_def read_time_def Let_def example_env_def example_world_def)
  have r1: "read_time example_env ?w - last_wordflash_time ?w < 2"
    by (simp add: read_time_def example_env_def example_world_def)
  from word_step_effect [OF l0 s e1 j1 d1] obtain w1 where
    1: "word_step example_env example_word_task ?w = Inr w1"
    and f1: "word_csv w1 = Some (save_word_db ?db)"
    and c1: "client_calls w1 = 2"
    and t1: "last_wordflash_time w1 = 2"
    and a1: "notified_at w1 = [2]"
    and now1: "now w1 = 2 + 1 / 4"
    and sl1: "sleeps w1 = 2"
    unfolding n1 using r1
    by (auto simp: c0 get_skip_def example_world_def example_env_def)
  have sv: "save_word_db ?db = ?rows" by code_simp
  have rd: "csv_reader ?rows = Inr ?rows" by (simp add: csv_reader_def field_size_limit_def)
  have "load_rows ?rows = Inr ?db" by code_simp
  with load_word_db_read [OF rd] f1 sv have l1: "load_word_db (word_csv w1) = Inr ?db" by simp
  have e2: "''(error) timeout'' = or_else (extract_final_message_only
                (stage_raw example_env 2 (word_model_name ?t) (prompt_word_en (word ?t)))) []"
    by code_simp
  have j2: "''(error) timeout'' = or_else (extract_final_message_only
                (stage_raw example_env (2 + 1) (word_model_name ?t) (prompt_word_ja (word ?t)))) []"
    by code_simp
  have n2: "next_stamp example_env w1 = 4"
    by (simp add: next_stamp_def read_time_def Let_def example_env_def c1 t1 now1 sl1)
  have k2: "get_skip ?db (word ?t) = 0" by (simp add: get_skip_def)
  from word_step_effect [OF l1 s e2 [folded c1] j2 [folded c1] refl] obtain w2 where
    2: "word_step example_env ?t w1 = Inr w2"
    and t2: "last_wordflash_time w2 = 4"
    and a2: "notified_at w2 = [2, 4]"
    unfolding n2 k2 a1 by auto
  from 1 2 sl1 t1 a2 t2 show ?thesis by blast
qed

theorem word_flash_pacing_witness:
  "\<exists>w1 w'.
     word_step example_env example_word_task (example_world\<lparr>word_csv := None\<rparr>) = Inr w1 \<and>
     word_worker example_env
       [Some example_word_task, Some \<lparr>word_model_name = ''gemma'', word = ''Baum''\<rparr>]
       (example_world\<lparr>word_csv := None\<rparr>) = Inr w' \<and>
     sleeps w1 = 2 \<and> last_wordflash_time w1 = 2 \<and>
     notified_at w' = [2, 4] \<and> paced (notified_at w')"
proof -
  let ?w = "example_world\<lparr>word_csv := None\<rparr>"
  let ?t = "\<lparr>word_model_name = ''gemma'', word = ''Baum''\<rparr>"
  from two_words_run obtain w1 w2 where
    1: "word_step example_env example_word_task ?w = Inr w1"
    and 2: "word_step example_env ?t w1 = Inr w2"
    and s1: "sleeps w1 = 2" and t1: "last_wordflash_time w1 = 2"
    and a2: "notified_at w2 = [2, 4]" by blast
  from 1 2 have run: "word_worker example_env [Some example_word_task, Some ?t] ?w = Inr w2"
    by simp
  have sleep: "\<forall>n. 0 \<le> oversleep example_env n" by (simp add: example_env_def)
  have inv: "paced (notified_at ?w)" "\<forall>t \<in> set (notified_at ?w). t \<le> last_wordflash_time ?w"
    by (simp_all add: paced_def example_world_def)
  from word_flash_pacing [OF sleep 1 run inv] have "paced (notified_at w2)" by blast
  with 1 run s1 t1 a2 show ?thesis by blast
qed


section \<open>Loading a legacy file\<close>

lemma load_absent: "load_word_db None = Inr []"
  by (simp add: load_word_db_def)

text \<open>
  A legacy file loads into records with empty translations and skip 0; a count field that
  \<open>isdigit\<close> rejects, here \<open>abc\<close> and \<open>-2\<close>, becomes 0, and the save that follows writes the
  five columns.
\<close>

lemma load_legacy_example:
  "load_word_db (Some [[''Word'', ''Count''], [''Haus'', ''3''], [], [''Baum'', ''abc''], [''Ast'', ''-2'']])
     = Inr [(''Haus'', \<lparr>en = [], ja = [], count = 3, skip = 0\<rparr>),
            (''Baum'', \<lparr>en = [], ja = [], count = 0, skip = 0\<rparr>),
            (''Ast'', \<lparr>en = [], ja = [], count = 0, skip = 0\<rparr>)]
   \<and> save_word_db [(''Haus'', \<lparr>en = [], ja = [], count = 3, skip = 0\<rparr>),
            (''Baum'', \<lparr>en = [], ja = [], count = 0, skip = 0\<rparr>),
            (''Ast'', \<lparr>en = [], ja = [], count = 0, skip = 0\<rparr>)]
     = [[''word'', ''en'', ''ja'', ''count'', ''skip''],
        [''Haus'', [], [], ''3'', ''0''],
        [''Ast'', [], [], ''0'', ''0''],
        [''Baum'', [], [], ''0'', ''0'']]"
proof -
  let ?rows = "[[''Word'', ''Count''], [''Haus'', ''3''], [], [''Baum'', ''abc''], [''Ast'', ''-2'']]"
  have r: "csv_reader ?rows = Inr ?rows" by (simp add: csv_reader_def field_size_limit_def)
  have l: "load_rows ?rows
     = Inr [(''Haus'', \<lparr>en = [], ja = [], count = 3, skip = 0\<rparr>),
            (''Baum'', \<lparr>en = [], ja = [], count = 0, skip = 0\<rparr>),
            (''Ast'', \<lparr>en = [], ja = [], count = 0, skip = 0\<rparr>)]"
    by code_simp
  have s: "save_word_db [(''Haus'', \<lparr>en = [], ja = [], count = 3, skip = 0\<rparr>),
            (''Baum'', \<lparr>en = [], ja = [], count = 0, skip = 0\<rparr>),
            (''Ast'', \<lparr>en = [], ja = [], count = 0, skip = 0\<rparr>)]
     = [[''word'', ''en'', ''ja'', ''count'', ''skip''],
        [''Haus'', [], [], ''3'', ''0''],
        [''Ast'', [], [], ''0'', ''0''],
        [''Baum'', [], [], ''0'', ''0'']]"
    by code_simp
  from load_word_db_read [OF r] l s show ?thesis by simp
qed

text \<open>
  Claim C6 fails on the code. In the branch for the legacy header the count is read by
  \<open>int(row[1]) if len(row) > 1 and row[1].isdigit() else 0\<close> with no \<open>try\<close> around it,
  where the two other branches read it inside \<open>try ... except\<close>. The superscript two
  (code point 0xB2) passes \<open>isdigit\<close> and is no digit for \<open>int\<close>: the load raises
  \<open>ValueError\<close> instead of reading the count as 0.
\<close>

theorem legacy_count_aborts_load:
  "load_word_db (Some [[''word'', ''count''], [''Haus'', [CHR 0xB2]]]) = Inl ValueError"
proof -
  let ?rows = "[[''word'', ''count''], [''Haus'', [CHR 0xB2]]]"
  have r: "csv_reader ?rows = Inr ?rows" by (simp add: csv_reader_def field_size_limit_def)
  have "load_rows ?rows = Inl ValueError" by code_simp
  with load_word_db_read [OF r] show ?thesis by simp
qed

text \<open>The same field in a file with the header of four or five columns is read as 0.\<close>

lemma guarded_count_example:
  "load_word_db (Some [[''word'', ''en'', ''ja'', ''count''], [''Haus'', ''house'', ''ie'', [CHR 0xB2]]])
     = Inr [(''Haus'', \<lparr>en = ''house'', ja = ''ie'', count = 0, skip = 0\<rparr>)]"
proof -
  let ?rows = "[[''word'', ''en'', ''ja'', ''count''], [''Haus'', ''house'', ''ie'', [CHR 0xB2]]]"
  have r: "csv_reader ?rows = Inr ?rows" by (simp add: csv_reader_def field_size_limit_def)
  have "load_rows ?rows = Inr [(''Haus'', \<lparr>en = ''house'', ja = ''ie'', count = 0, skip = 0\<rparr>)]"
    by code_simp
  with load_word_db_read [OF r] show ?thesis by simp
qed


section \<open>What the extraction returns\<close>

lemma occurs_at_bound: "occurs_at s t i \<Longrightarrow> i \<le> length s"
  by (simp add: occurs_at_def)

lemma filter_upto_empty: "(filter P (rev [0..<n]) = []) = (\<forall>i<n. \<not> P i)"
  by (auto simp: filter_empty_conv)

lemma rfind_none: "(rfind s t = - 1) = (\<forall>i. \<not> occurs_at s t i)"
proof -
  have "(\<forall>i<Suc (length s). \<not> occurs_at s t i) = (\<forall>i. \<not> occurs_at s t i)"
    using occurs_at_bound less_Suc_eq_le by blast
  then have "(filter (occurs_at s t) (rev [0..<Suc (length s)]) = []) = (\<forall>i. \<not> occurs_at s t i)"
    by (simp only: filter_upto_empty)
  then show ?thesis
    by (cases "filter (occurs_at s t) (rev [0..<Suc (length s)])") (simp_all add: rfind_def)
qed

lemma sorted_filter_upto: "sorted (filter P [0..<n])"
  by (simp add: sorted_wrt_filter)

lemma set_filter_upto: "set (filter P [0..<n]) = {i. i < n \<and> P i}"
  by auto

lemma rfind_last:
  assumes "rfind s t = int i"
  shows "occurs_at s t i \<and> (\<forall>j. occurs_at s t j \<longrightarrow> j \<le> i)"
proof -
  let ?f = "filter (occurs_at s t) [0..<Suc (length s)]"
  have r: "filter (occurs_at s t) (rev [0..<Suc (length s)]) = rev ?f" by (simp only: rev_filter)
  with assms obtain rest where "rev ?f = i # rest"
    by (cases "rev ?f") (simp_all only: rfind_def list.case, simp_all)
  then have f: "?f = rev rest @ [i]" by (metis rev.simps(2) rev_rev_ident)
  then have "i \<in> set ?f" by (simp only: set_append) simp
  then have o: "occurs_at s t i" by (simp only: set_filter_upto) simp
  have srt: "sorted ?f" by (rule sorted_filter_upto)
  have "j \<le> i" if "occurs_at s t j" for j
  proof -
    from that occurs_at_bound [OF that] have "j \<in> set ?f"
      by (simp only: set_filter_upto) (simp add: less_Suc_eq_le)
    with srt show ?thesis unfolding f by (auto simp: sorted_append)
  qed
  with o show ?thesis by blast
qed

lemma rfind_cases:
  "rfind s t = - 1 \<or> (\<exists>i. rfind s t = int i)"
  by (simp add: rfind_def split: list.splits)

lemma rfind_eq:
  assumes "occurs_at s t i" and "\<forall>j. occurs_at s t j \<longrightarrow> j \<le> i"
  shows "rfind s t = int i"
proof -
  from assms(1) have "rfind s t \<noteq> - 1" by (auto simp: rfind_none)
  with rfind_cases obtain k where k: "rfind s t = int k" by blast
  from rfind_last [OF k] assms have "k = i" by (simp add: order_antisym)
  with k show ?thesis by simp
qed

lemma occurs_at_suffix:
  assumes "occurs_at s (p @ t) j"
  shows "occurs_at s t (j + length p)"
proof -
  from assms have len: "j + (length p + length t) \<le> length s"
    and eq: "take (length p + length t) (drop j s) = p @ t"
    by (simp_all add: occurs_at_def)
  from eq have "drop (length p) (take (length p + length t) (drop j s)) = t" by simp
  then have "take (length t) (drop (j + length p) s) = t"
    by (simp add: drop_take add.commute)
  with len show ?thesis by (simp add: occurs_at_def)
qed

lemma rfind_suffix_less:
  assumes "p \<noteq> []"
  shows "rfind s (p @ t) \<le> rfind s t"
proof (cases "rfind s (p @ t) = - 1")
  case True
  with rfind_cases [of s t] show ?thesis by auto
next
  case False
  with rfind_cases obtain j where j: "rfind s (p @ t) = int j" by blast
  from rfind_last [OF j] have "occurs_at s t (j + length p)" by (simp add: occurs_at_suffix)
  moreover from this have "rfind s t \<noteq> - 1" by (auto simp: rfind_none)
  then obtain i where i: "rfind s t = int i" using rfind_cases by blast
  ultimately have "j + length p \<le> i" using rfind_last [OF i] by blast
  with i j show ?thesis by simp
qed

lemma final_tokens_suffix:
  "final_tokens = [marker, ''<|channel|>'' @ marker, ''<|start|>assistant<|channel|>'' @ marker]"
  by (simp add: final_tokens_def marker_def)

lemma scan_final_tokens:
  "scan_tokens s final_tokens (- 1, None)
     = (if rfind s marker = - 1 then (- 1, None) else (rfind s marker, Some marker))"
proof -
  have 1: "rfind s (''<|channel|>'' @ marker) \<le> rfind s marker"
    by (rule rfind_suffix_less) simp
  have 2: "rfind s (''<|start|>assistant<|channel|>'' @ marker) \<le> rfind s marker"
    by (rule rfind_suffix_less) simp
  have 3: "- 1 \<le> rfind s marker" using rfind_cases [of s marker] by auto
  from 1 2 3 show ?thesis
    unfolding final_tokens_suffix by (auto simp: Let_def)
qed

lemma extract_marker:
  "extract_final_message_only s =
     py_strip (strip_leading_tokens
       (if rfind s marker = - 1 then s else drop (nat (rfind s marker) + length marker) s))"
  by (simp add: extract_final_message_only_def scan_final_tokens)

lemma token_ends_with_marker:
  assumes "t \<in> set final_tokens"
  shows "\<exists>p. t = p @ marker"
  using assms unfolding final_tokens_suffix by auto

lemma extract_no_marker:
  assumes "\<forall>t \<in> set final_tokens. \<forall>i. \<not> occurs_at s t i"
  shows "extract_final_message_only s = py_strip (strip_leading_tokens s)"
proof -
  have "marker \<in> set final_tokens" by (simp add: final_tokens_suffix)
  with assms have "rfind s marker = - 1" by (simp add: rfind_none)
  then show ?thesis by (simp add: extract_marker)
qed

lemma extract_last_marker:
  assumes t: "t \<in> set final_tokens" and occ: "occurs_at s t i"
    and last: "\<forall>t' \<in> set final_tokens. \<forall>j. occurs_at s t' j \<longrightarrow> j + length t' \<le> i + length t"
  shows "extract_final_message_only s = py_strip (strip_leading_tokens (drop (i + length t) s))"
proof -
  from t obtain p where p: "t = p @ marker" using token_ends_with_marker by blast
  with occ have o: "occurs_at s marker (i + length p)" by (simp add: occurs_at_suffix)
  then have "rfind s marker \<noteq> - 1" by (auto simp: rfind_none)
  then obtain k where k: "rfind s marker = int k" using rfind_cases by blast
  from rfind_last [OF k] o have ge: "i + length p \<le> k" and ok: "occurs_at s marker k" by blast+
  have "marker \<in> set final_tokens" by (simp add: final_tokens_suffix)
  with last ok have "k + length marker \<le> i + length t" by blast
  with ge p have "k + length marker = i + length t" by simp
  with k show ?thesis by (simp add: extract_marker)
qed

lemma match_token_shape:
  assumes "body \<noteq> []" and "CHR ''|'' \<notin> set body"
  shows "match_token (''<|'' @ body @ ''|>'' @ rest) = Some rest"
proof -
  from assms(2) have "takeWhile (\<lambda>c. c \<noteq> CHR ''|'') (body @ ''|>'' @ rest) = body"
    by (simp add: takeWhile_append)
  moreover from assms(2) have "dropWhile (\<lambda>c. c \<noteq> CHR ''|'') (body @ ''|>'' @ rest) = ''|>'' @ rest"
    by (simp add: dropWhile_append)
  ultimately show ?thesis using assms(1) by (simp add: match_token_def)
qed

text \<open>
  Claim C5, amended. The extraction takes what follows the end of the last occurrence of
  any marker, or the whole text when no marker occurs; in both cases it removes, when
  the text starts with whitespace and at least one control token, that whitespace and the
  tokens, and trims the result. The sentence pipeline falls back to the trimmed raw text
  when the extraction is empty; the word pipeline uses the extraction as it is.
\<close>

theorem extraction_after_last_marker:
  "((\<forall>t \<in> set final_tokens. \<forall>i. \<not> occurs_at s t i) \<longrightarrow>
      extract_final_message_only s = py_strip (strip_leading_tokens s)) \<and>
   (t \<in> set final_tokens \<and> occurs_at s t i \<and>
    (\<forall>t' \<in> set final_tokens. \<forall>j. occurs_at s t' j \<longrightarrow> j + length t' \<le> i + length t) \<longrightarrow>
      extract_final_message_only s = py_strip (strip_leading_tokens (drop (i + length t) s))) \<and>
   (\<forall>w'. sentence_step ev task w = Inr w' \<longrightarrow>
      ui_queue w' = ui_queue w @
        [Start_status (lang task),
         Apply_translate_result (ts14 task) (lang task)
           (let raw = stage_raw ev (client_calls w) (model_name task) (prompt_of task);
                x = extract_final_message_only raw
            in if x = [] then py_strip raw else x)]) \<and>
   fst (ask_word ev m p w) = extract_final_message_only (stage_raw ev (client_calls w) m p)"
proof -
  have "\<forall>w'. sentence_step ev task w = Inr w' \<longrightarrow>
      ui_queue w' = ui_queue w @
        [Start_status (lang task),
         Apply_translate_result (ts14 task) (lang task)
           (let raw = stage_raw ev (client_calls w) (model_name task) (prompt_of task);
                x = extract_final_message_only raw
            in if x = [] then py_strip raw else x)]"
    by (auto simp: sentence_step_def call_client_def or_else_def Let_def split: if_splits)
  moreover have "fst (ask_word ev m p w) = extract_final_message_only (stage_raw ev (client_calls w) m p)"
    by (simp add: ask_word_def call_client_def or_else_def)
  ultimately show ?thesis using extract_no_marker extract_last_marker by blast
qed

text \<open>
  The claim as stated fails twice. A text with no marker whose head is a control token
  loses the token, so the result is not the trimmed raw text; and for an answer that is
  a single control token the word pipeline returns the empty text, not the trimmed raw
  text.
\<close>

theorem extraction_after_last_marker_counterexample:
  "rfind ''<|channel|>Haus'' (final_tokens ! 0) = - 1 \<and>
   rfind ''<|channel|>Haus'' (final_tokens ! 1) = - 1 \<and>
   rfind ''<|channel|>Haus'' (final_tokens ! 2) = - 1 \<and>
   extract_final_message_only ''<|channel|>Haus'' = ''Haus'' \<and>
   py_strip ''<|channel|>Haus'' = ''<|channel|>Haus'' \<and>
   fst (ask_word token_env ''gemma'' (prompt_word_en ''Haus'') example_world) = [] \<and>
   py_strip (stage_raw token_env (client_calls example_world) ''gemma'' (prompt_word_en ''Haus''))
     = ''<|channel|>''"
  by code_simp

theorem extraction_after_last_marker_witness:
  "extract_final_message_only ''<|start|>assistant<|channel|>final<|message|> <|x|>Haus ''
     = py_strip (strip_leading_tokens '' <|x|>Haus '') \<and>
   extract_final_message_only ''<|start|>assistant<|channel|>final<|message|> <|x|>Haus '' = ''Haus'' \<and>
   extract_final_message_only '' Haus '' = py_strip (strip_leading_tokens '' Haus '')"
proof -
  let ?s = "''<|start|>assistant<|channel|>final<|message|> <|x|>Haus ''"
  let ?t = "''<|start|>assistant<|channel|>final<|message|>''"
  have a: "?t \<in> set final_tokens \<and> occurs_at ?s ?t 0 \<and>
    (\<forall>t' \<in> set final_tokens. \<forall>j. occurs_at ?s t' j \<longrightarrow> j + length t' \<le> 0 + length ?t)"
  proof (intro conjI ballI allI impI)
    show "?t \<in> set final_tokens" by (simp add: final_tokens_def)
    show "occurs_at ?s ?t 0" by (simp add: occurs_at_def)
    fix t' j assume t': "t' \<in> set final_tokens" and o: "occurs_at ?s t' j"
    from t' obtain p where p: "t' = p @ marker" using token_ends_with_marker by blast
    with o have om: "occurs_at ?s marker (j + length p)" by (simp add: occurs_at_suffix)
    have "rfind ?s marker = 29" by code_simp
    then have "rfind ?s marker = int 29" by simp
    from rfind_last [OF this] om have "j + length p \<le> 29" by blast
    with p show "j + length t' \<le> 0 + length ?t" by (simp add: marker_def)
  qed
  have b: "\<forall>t \<in> set final_tokens. \<forall>i. \<not> occurs_at '' Haus '' t i"
  proof (intro ballI)
    fix t assume "t \<in> set final_tokens"
    moreover have "rfind '' Haus '' (final_tokens ! 0) = - 1" "rfind '' Haus '' (final_tokens ! 1) = - 1"
      "rfind '' Haus '' (final_tokens ! 2) = - 1" by code_simp+
    ultimately have "rfind '' Haus '' t = - 1" by (auto simp: final_tokens_def)
    then show "\<forall>i. \<not> occurs_at '' Haus '' t i" by (simp add: rfind_none)
  qed
  have d: "drop (0 + length ?t) ?s = '' <|x|>Haus ''" by simp
  have e: "py_strip (strip_leading_tokens '' <|x|>Haus '') = ''Haus''" by code_simp
  from extraction_after_last_marker [where s = ?s and t = ?t and i = 0] a
  have 1: "extract_final_message_only ?s = py_strip (strip_leading_tokens (drop (0 + length ?t) ?s))"
    by blast
  from extraction_after_last_marker [where s = "'' Haus ''"] b
  have 2: "extract_final_message_only '' Haus '' = py_strip (strip_leading_tokens '' Haus '')"
    by blast
  from 1 2 show ?thesis unfolding d e by simp
qed


section \<open>The words of a loaded store are stripped\<close>

lemma py_strip_prefix: "\<exists>c. dropWhile is_space s = py_strip s @ c"
proof -
  let ?a = "dropWhile is_space s"
  have "rev (takeWhile is_space (rev ?a) @ dropWhile is_space (rev ?a)) = ?a"
    by (simp only: takeWhile_dropWhile_id rev_rev_ident)
  then have "?a = rev (dropWhile is_space (rev ?a)) @ rev (takeWhile is_space (rev ?a))"
    by (simp only: rev_append)
  then have "?a = py_strip s @ rev (takeWhile is_space (rev ?a))"
    by (simp only: py_strip_def)
  then show ?thesis ..
qed

lemma py_strip_hd:
  assumes "py_strip s \<noteq> []"
  shows "\<not> is_space (hd (py_strip s))"
proof -
  obtain c where c: "dropWhile is_space s = py_strip s @ c" using py_strip_prefix by blast
  with assms have ne: "dropWhile is_space s \<noteq> []" and "hd (dropWhile is_space s) = hd (py_strip s)"
    by auto
  moreover from ne have "\<not> is_space (hd (dropWhile is_space s))" by (rule hd_dropWhile)
  ultimately show ?thesis by simp
qed

lemma py_strip_last:
  assumes "py_strip s \<noteq> []"
  shows "\<not> is_space (last (py_strip s))"
proof -
  let ?d = "dropWhile is_space (rev (dropWhile is_space s))"
  from assms have ne: "?d \<noteq> []" by (simp add: py_strip_def)
  then have "\<not> is_space (hd ?d)" by (rule hd_dropWhile)
  moreover from ne have "last (rev ?d) = hd ?d" by (simp add: last_rev)
  ultimately show ?thesis by (simp add: py_strip_def)
qed

lemma py_strip_idem: "py_strip (py_strip s) = py_strip s"
proof (cases "py_strip s = []")
  case True
  have "py_strip [] = []" by (simp add: py_strip_def)
  with True show ?thesis by simp
next
  case False
  then have "rev (dropWhile is_space (rev (dropWhile is_space (py_strip s)))) = py_strip s"
    by (intro trim_id py_strip_hd py_strip_last)
  then show ?thesis by (simp add: py_strip_def [of "py_strip s"])
qed

lemma load_legacy_keys:
  "\<forall>k \<in> fst ` set db. py_strip k = k \<Longrightarrow> load_legacy rows db = Inr db' \<Longrightarrow>
     \<forall>k \<in> fst ` set db'. py_strip k = k"
proof (induction rows arbitrary: db)
  case Nil
  then show ?case by simp
next
  case (Cons row rows)
  show ?case
  proof (cases "row = []")
    case True
    with Cons show ?thesis by simp
  next
    case False
    have step: "\<forall>k \<in> fst ` set (AList.update (py_strip (row ! 0)) v db). py_strip k = k" for v
      using Cons.prems(1) by (auto simp: dom_update py_strip_idem)
    from Cons.prems(2) False obtain v where
      "load_legacy rows (AList.update (py_strip (row ! 0)) v db) = Inr db'"
      by (auto simp: Let_def split: if_splits option.splits)
    with step show ?thesis by (rule Cons.IH)
  qed
qed

lemma load_4col_keys:
  "\<forall>k \<in> fst ` set db. py_strip k = k \<Longrightarrow> \<forall>k \<in> fst ` set (load_4col rows db). py_strip k = k"
proof (induction rows arbitrary: db)
  case Nil
  then show ?case by simp
next
  case (Cons row rows)
  show ?case
  proof (cases "row = []")
    case True
    with Cons show ?thesis by simp
  next
    case False
    let ?v = "\<lparr>en = stripped_field row 1, ja = stripped_field row 2,
               count = (if length row > 3 then int_or_0 (row ! 3) else 0),
               skip = (if length row > 4 \<and> (row ! 4 = ''0'' \<or> row ! 4 = ''1'') then int_or_0 (row ! 4) else 0)\<rparr>"
    from Cons.prems have "\<forall>k \<in> fst ` set (AList.update (py_strip (row ! 0)) ?v db). py_strip k = k"
      by (auto simp: dom_update py_strip_idem)
    from Cons.IH [OF this] False show ?thesis by (simp add: Let_def)
  qed
qed

lemma load_5col_keys:
  "\<forall>k \<in> fst ` set db. py_strip k = k \<Longrightarrow> \<forall>k \<in> fst ` set (load_5col rows db). py_strip k = k"
proof (induction rows arbitrary: db)
  case Nil
  then show ?case by simp
next
  case (Cons row rows)
  show ?case
  proof (cases "row = []")
    case True
    with Cons show ?thesis by simp
  next
    case False
    let ?v = "\<lparr>en = stripped_field row 1, ja = stripped_field row 2,
               count = (if length row > 3 then int_or_0 (row ! 3) else 0),
               skip = (if length row > 4 \<and> isdigit (py_strip (row ! 4)) then int_or_0 (row ! 4) else 0)\<rparr>"
    from Cons.prems have "\<forall>k \<in> fst ` set (AList.update (py_strip (row ! 0)) ?v db). py_strip k = k"
      by (auto simp: dom_update py_strip_idem)
    from Cons.IH [OF this] False show ?thesis by (simp add: Let_def)
  qed
qed

lemma load_rows_keys_stripped:
  assumes "load_rows rows = Inr db"
  shows "\<forall>k \<in> fst ` set db. py_strip k = k"
proof -
  have e: "\<forall>k \<in> fst ` set ([] :: word_db). py_strip k = k" by simp
  show ?thesis
  proof (cases rows)
    case Nil
    with assms show ?thesis by (simp add: load_rows_def)
  next
    case (Cons r0 rest)
    with assms have
      "load_legacy rest [] = Inr db \<or> db = load_4col rest [] \<or> db = load_5col rest []"
      by (auto simp: load_rows_def Let_def split: if_splits)
    then show ?thesis
    proof (elim disjE)
      assume "load_legacy rest [] = Inr db"
      with e show ?thesis by (rule load_legacy_keys)
    next
      assume "db = load_4col rest []"
      with load_4col_keys [OF e] show ?thesis by simp
    next
      assume "db = load_5col rest []"
      with load_5col_keys [OF e] show ?thesis by simp
    qed
  qed
qed

lemma load_keys_stripped:
  assumes "load_word_db file = Inr db" and "k \<in> fst ` set db"
  shows "py_strip k = k"
proof -
  from load_word_db_cases [OF assms(1)] show ?thesis
  proof (elim disjE conjE exE)
    assume "db = []"
    with assms(2) show ?thesis by simp
  next
    fix rows assume "load_rows rows = Inr db"
    from load_rows_keys_stripped [OF this] assms(2) show ?thesis by blast
  qed
qed


section \<open>The skip toggle changes one flag\<close>

lemma py_str_no_space: "CHR '' '' \<notin> set (py_str n)"
proof -
  have "CHR '' '' \<notin> set (nat_digits m)" for m
    using nat_digits_decimal [of m] by (auto simp: list_all_iff is_decimal_char_def)
  then show ?thesis by (simp add: py_str_def)
qed

lemma occurs_at_first_char:
  assumes "occurs_at s (c # t) j"
  shows "j < length s \<and> s ! j = c"
proof -
  from assms have l: "j < length s" and "take (Suc (length t)) (drop j s) = c # t"
    by (simp_all add: occurs_at_def)
  then have "hd (drop j s) = c" by (cases "drop j s") auto
  with l show ?thesis by (simp add: hd_drop_conv_nth)
qed

lemma rfind_combo_entry:
  "rfind (w @ '' ('' @ py_str n @ '')'') '' ('' = int (length w)"
proof (rule rfind_eq)
  let ?s = "w @ '' ('' @ py_str n @ '')''"
  show "occurs_at ?s '' ('' (length w)" by (simp add: occurs_at_def)
  show "\<forall>j. occurs_at ?s '' ('' j \<longrightarrow> j \<le> length w"
  proof (intro allI impI)
    fix j assume "occurs_at ?s '' ('' j"
    then have j: "j < length ?s" and c: "?s ! j = CHR '' ''" using occurs_at_first_char by blast+
    show "j \<le> length w"
    proof (rule ccontr)
      assume "\<not> j \<le> length w"
      then have g: "Suc (length w) \<le> j" by simp
      have "?s = (w @ '' '') @ (''('' @ py_str n @ '')'')" by simp
      then have "?s ! j = (''('' @ py_str n @ '')'') ! (j - Suc (length w))"
        using g by (simp only: nth_append) simp
      moreover from j g have "j - Suc (length w) < length (''('' @ py_str n @ '')'')" by simp
      ultimately have "?s ! j \<in> set (''('' @ py_str n @ '')'')" by (simp only: nth_mem)
      with c py_str_no_space [of n] show False by simp
    qed
  qed
qed

lemma selected_combo_entry:
  assumes "py_strip w = w" and "w \<noteq> []"
  shows "py_strip (combo_entry (w, info)) = combo_entry (w, info)"
    and "selected_word (combo_entry (w, info)) = w"
proof -
  let ?s = "w @ '' ('' @ py_str (count info) @ '')''"
  from assms have "py_strip w \<noteq> []" by simp
  then have "\<not> is_space (hd (py_strip w))" by (rule py_strip_hd)
  with assms have h: "\<not> is_space (hd ?s)" by simp
  have l: "\<not> is_space (last ?s)" by (simp add: is_space_def)
  from h l have "rev (dropWhile is_space (rev (dropWhile is_space ?s))) = ?s"
    by (intro trim_id) simp_all
  then show "py_strip (combo_entry (w, info)) = combo_entry (w, info)"
    by (simp add: py_strip_def combo_entry_def)
  have "rfind ?s '' ('' = int (length w)" by (rule rfind_combo_entry)
  with assms(1) show "selected_word (combo_entry (w, info)) = w"
    by (simp add: selected_word_def combo_entry_def)
qed

lemma insort_key_map:
  assumes "f (g x) = f x" and "\<forall>y \<in> set xs. f (g y) = f y"
  shows "insort_key f (g x) (map g xs) = map g (insort_key f x xs)"
  using assms by (induction xs) simp_all

lemma sort_key_map:
  assumes "\<forall>y \<in> set xs. f (g y) = f y"
  shows "sort_key f (map g xs) = map g (sort_key f xs)"
  using assms
proof (induction xs)
  case Nil
  then show ?case by simp
next
  case (Cons x xs)
  then have "sort_key f (map g xs) = map g (sort_key f xs)" by simp
  moreover from Cons.prems have "f (g x) = f x" "\<forall>y \<in> set (sort_key f xs). f (g y) = f y"
    by simp_all
  ultimately show ?case by (simp add: insort_key_map)
qed

lemma map_other_keys:
  "k \<notin> fst ` set db \<Longrightarrow> map (\<lambda>x. if fst x = k then (k, v) else x) db = db"
  by (induction db) auto

lemma update_as_map:
  assumes "distinct (map fst db)"
  shows "AList.update k v db
         = (if k \<in> fst ` set db then map (\<lambda>x. if fst x = k then (k, v) else x) db
            else db @ [(k, v)])"
  using assms
proof (induction db)
  case Nil
  then show ?case by simp
next
  case (Cons x db)
  show ?case
  proof (cases "fst x = k")
    case True
    with Cons.prems have "k \<notin> fst ` set db" by auto
    with True show ?thesis by (simp add: map_other_keys)
  next
    case False
    with Cons show ?thesis by auto
  qed
qed

text \<open>
  Claim C10. For a word of the loaded store, chosen by its entry in the combobox, the
  toggle saves a store in which the skip flag of the word is 0 when it was 1 and 1
  otherwise, nothing else of its record is changed, and every other word keeps its
  record; the rows written are those of the loaded store in the same order, but for the
  skip field of the word.
\<close>

theorem toggle_skip_frame:
  assumes load: "load_word_db file = Inr db"
    and present: "map_of db wd = Some info"
    and nonempty: "wd \<noteq> []"
    and new: "new = (if skip info = 1 then 0 else 1)"
  shows "\<exists>db'. on_toggle_skip (combo_entry (wd, info)) file
               = Inr (Skip_set wd new, Some (save_word_db db')) \<and>
           map_of db' wd = Some (info\<lparr>skip := new\<rparr>) \<and>
           (\<forall>k. k \<noteq> wd \<longrightarrow> map_of db' k = map_of db k) \<and>
           save_word_db db' =
             WORD_HEADER # map (\<lambda>x. row_of (if fst x = wd then (wd, info\<lparr>skip := new\<rparr>) else x))
                               (sort_key sort_key_of db)"
proof -
  let ?v = "info\<lparr>skip := new\<rparr>"
  let ?g = "\<lambda>x. if fst x = wd then (wd, ?v) else x"
  let ?db = "AList.update wd ?v db"
  from present have mem: "(wd, info) \<in> set db" by (rule map_of_SomeD)
  then have key: "wd \<in> fst ` set db" by force
  with load have st: "py_strip wd = wd" by (rule load_keys_stripped)
  from load have d: "distinct (map fst db)" by (rule load_distinct)
  have sel: "py_strip (combo_entry (wd, info)) = combo_entry (wd, info)"
    "selected_word (combo_entry (wd, info)) = wd"
    using selected_combo_entry [OF st nonempty] by simp_all
  have ne: "combo_entry (wd, info) \<noteq> []" by (simp add: combo_entry_def)
  have run: "on_toggle_skip (combo_entry (wd, info)) file
               = Inr (Skip_set wd new, Some (save_word_db ?db))"
    using load present nonempty ne
    by (simp add: on_toggle_skip_def sel Let_def new)
  have m: "map_of ?db wd = Some ?v" by (simp add: update_conv')
  have fr: "\<forall>k. k \<noteq> wd \<longrightarrow> map_of ?db k = map_of db k" by (simp add: update_conv')
  have same_key: "\<forall>y \<in> set db. sort_key_of (?g y) = sort_key_of y"
  proof
    fix y assume y: "y \<in> set db"
    show "sort_key_of (?g y) = sort_key_of y"
    proof (cases "fst y = wd")
      case True
      with d mem y have "y = (wd, info)"
        by (metis eq_key_imp_eq_value prod.collapse)
      then show ?thesis by (simp add: sort_key_of_def)
    next
      case False
      then show ?thesis by simp
    qed
  qed
  from d key have "?db = map ?g db" by (simp add: update_as_map)
  then have "sort_key sort_key_of ?db = map ?g (sort_key sort_key_of db)"
    using same_key by (simp only: sort_key_map)
  then have "save_word_db ?db = WORD_HEADER # map (\<lambda>x. row_of (?g x)) (sort_key sort_key_of db)"
    by (simp add: save_word_db_def comp_def)
  with run m fr show ?thesis by blast
qed

theorem toggle_skip_frame_witness:
  "on_toggle_skip ''Haus (3)'' (Some (save_word_db example_db))
     = Inr (Skip_set ''Haus'' 0,
            Some [WORD_HEADER,
                  [''Haus'', ''house'', ''ie'', ''3'', ''0''],
                  [''Apfel'', ''apple'', [], ''1'', ''0''],
                  [''Baum'', ''tree'', ''ki'', ''1'', ''0'']])"
proof -
  let ?info = "\<lparr>en = ''house'', ja = ''ie'', count = 3, skip = 1\<rparr>"
  let ?db = "[(''Haus'', ?info),
              (''Apfel'', \<lparr>en = ''apple'', ja = [], count = 1, skip = 0\<rparr>),
              (''Baum'', \<lparr>en = ''tree'', ja = ''ki'', count = 1, skip = 0\<rparr>)]"
  have l: "load_word_db (Some (save_word_db example_db)) = Inr ?db" by (rule example_db_loads)
  have p: "map_of ?db ''Haus'' = Some ?info" by simp
  have n: "''Haus'' \<noteq> []" by simp
  have k: "(0::int) = (if skip ?info = 1 then 0 else 1)" by simp
  have c: "combo_entry (''Haus'', ?info) = ''Haus (3)''" by code_simp
  have r: "WORD_HEADER # map (\<lambda>x. row_of (if fst x = ''Haus'' then (''Haus'', ?info\<lparr>skip := 0\<rparr>) else x))
                               (sort_key sort_key_of ?db)
       = [WORD_HEADER,
                  [''Haus'', ''house'', ''ie'', ''3'', ''0''],
                  [''Apfel'', ''apple'', [], ''1'', ''0''],
                  [''Baum'', ''tree'', ''ki'', ''1'', ''0'']]"
    by code_simp
  from toggle_skip_frame [OF l p n k] obtain db' where
    "on_toggle_skip (combo_entry (''Haus'', ?info)) (Some (save_word_db example_db))
       = Inr (Skip_set ''Haus'' 0, Some (save_word_db db'))"
    and "save_word_db db' =
       WORD_HEADER # map (\<lambda>x. row_of (if fst x = ''Haus'' then (''Haus'', ?info\<lparr>skip := 0\<rparr>) else x))
                               (sort_key sort_key_of ?db)"
    by blast
  then show ?thesis unfolding c r by simp
qed


section \<open>From the queue to the archive\<close>

text \<open>
  A request from its two queued stages to the archive: whatever the client does in the
  two calls, answer or exception, the worker queues the two results, and the interface
  thread, applying them, appends the one row of the request.
\<close>

lemma request_is_archived:
  assumes fresh: "pending w ts = Some (new_pending text)"
    and en: "ts14 t_en = ts" "lang t_en = ''en''" "\<not> log_write_fails ev (log_path t_en)"
    and ja: "ts14 t_ja = ts" "lang t_ja = ''ja''" "\<not> log_write_fails ev (log_path t_ja)"
    and f_en: "f_en = (let raw = stage_raw ev (client_calls w) (model_name t_en) (prompt_of t_en)
                       in or_else (extract_final_message_only raw) (py_strip raw))"
    and f_ja: "f_ja = (let raw = stage_raw ev (client_calls w + 1) (model_name t_ja) (prompt_of t_ja)
                       in or_else (extract_final_message_only raw) (py_strip raw))"
  shows "\<exists>w' u. sentence_worker ev [Some t_en, Some t_ja] w = Inr w' \<and>
           ui_queue w' = ui_queue w @
             [Start_status ''en'', Apply_translate_result ts ''en'' f_en,
              Start_status ''ja'', Apply_translate_result ts ''ja'' f_ja] \<and>
           apply_results [(ts, ''en'', f_en), (ts, ''ja'', f_ja)] w' = Inr u \<and>
           archive_csv u =
             append_csv_row (archive_csv w) [ts, text, f_ja, f_en, [], []] ARCHIVE_HEADER \<and>
           pending u ts = None"
proof -
  from sentence_step_effect [OF en(3) refl, of w] obtain w1 where
    1: "sentence_step ev t_en w = Inr w1"
    and q1: "ui_queue w1 = ui_queue w @ [Start_status ''en'', Apply_translate_result ts ''en'' f_en]"
    and c1: "client_calls w1 = client_calls w + 1"
    and p1: "pending w1 = pending w" and a1: "archive_csv w1 = archive_csv w"
    by (auto simp: en f_en Let_def)
  from sentence_step_effect [OF ja(3) refl, of w1] obtain w2 where
    2: "sentence_step ev t_ja w1 = Inr w2"
    and q2: "ui_queue w2 = ui_queue w1 @ [Start_status ''ja'', Apply_translate_result ts ''ja'' f_ja]"
    and p2: "pending w2 = pending w1" and a2: "archive_csv w2 = archive_csv w1"
    by (auto simp: ja f_ja c1 Let_def)
  let ?d1 = "(new_pending text)(''en'' \<mapsto> Some f_en)"
  let ?d2 = "?d1(''ja'' \<mapsto> Some f_ja)"
  have l: "''en'' \<in> status_langs" "''ja'' \<in> status_langs" by (simp_all add: status_langs_def)
  have "\<not> (has_value ?d1 ''ja'' \<and> has_value ?d1 ''en'')"
    by (simp add: has_value_def new_pending_def)
  with fresh p1 p2 l(1) obtain u1 where
    3: "apply_translate_result ts ''en'' f_en w2 = Inr u1"
    and a3: "archive_csv u1 = archive_csv w2" and p3: "pending u1 ts = Some ?d1"
    using apply_first [of w2 ts "new_pending text" "''en''" f_en] by auto
  have hv: "has_value ?d2 ''ja''" "has_value ?d2 ''en''" and de: "?d1 ''de'' \<noteq> None"
    and nde: "''ja'' \<noteq> ''de''"
    by (simp_all add: has_value_def new_pending_def)
  from apply_last [OF p3 l(2) de nde hv] obtain u where
    4: "apply_translate_result ts ''ja'' f_ja u1 = Inr u"
    and a4: "archive_csv u = append_csv_row (archive_csv u1)
              (ts # map (get_or_empty ?d2) [''de'', ''ja'', ''en'', ''es'', ''fr'']) ARCHIVE_HEADER"
    and p4: "pending u ts = None" by blast
  have row: "map (get_or_empty ?d2) [''de'', ''ja'', ''en'', ''es'', ''fr'']
      = [text, f_ja, f_en, [], []]"
    by (simp add: get_or_empty_def new_pending_def)
  from 1 2 have "sentence_worker ev [Some t_en, Some t_ja] w = Inr w2" by simp
  moreover from q1 q2 have "ui_queue w2 = ui_queue w @
             [Start_status ''en'', Apply_translate_result ts ''en'' f_en,
              Start_status ''ja'', Apply_translate_result ts ''ja'' f_ja]" by simp
  moreover from 3 4 have "apply_results [(ts, ''en'', f_en), (ts, ''ja'', f_ja)] w2 = Inr u" by simp
  moreover from a4 a3 a2 a1 row have "archive_csv u =
             append_csv_row (archive_csv w) [ts, text, f_ja, f_en, [], []] ARCHIVE_HEADER" by simp
  ultimately show ?thesis using p4 by blast
qed

lemma failing_request_example:
  "\<exists>w' u. sentence_worker example_env [Some example_task_en, Some example_task_ja] example_world = Inr w' \<and>
     apply_results [(''20240101120000'', ''en'', ''house; home''),
                    (''20240101120000'', ''ja'', ''(error) timeout'')] w' = Inr u \<and>
     archive_csv u = Some [ARCHIVE_HEADER,
        [''20240101120000'', ''Haus'', ''(error) timeout'', ''house; home'', [], []]]"
proof -
  have p: "pending example_world ''20240101120000'' = Some (new_pending ''Haus'')"
    by (simp add: example_world_def)
  have e: "''house; home'' = (let raw = stage_raw example_env (client_calls example_world)
                (model_name example_task_en) (prompt_of example_task_en)
              in or_else (extract_final_message_only raw) (py_strip raw))" by code_simp
  have j: "''(error) timeout'' = (let raw = stage_raw example_env (client_calls example_world + 1)
                (model_name example_task_ja) (prompt_of example_task_ja)
              in or_else (extract_final_message_only raw) (py_strip raw))" by code_simp
  have a: "append_csv_row (archive_csv example_world)
             [''20240101120000'', ''Haus'', ''(error) timeout'', ''house; home'', [], []] ARCHIVE_HEADER
           = Some [ARCHIVE_HEADER,
        [''20240101120000'', ''Haus'', ''(error) timeout'', ''house; home'', [], []]]"
    by (simp add: example_world_def append_csv_row_def ARCHIVE_HEADER_def)
  have t: "ts14 example_task_en = ''20240101120000''" "lang example_task_en = ''en''"
    "\<not> log_write_fails example_env (log_path example_task_en)"
    "ts14 example_task_ja = ''20240101120000''" "lang example_task_ja = ''ja''"
    "\<not> log_write_fails example_env (log_path example_task_ja)"
    by (simp_all add: example_task_en_def example_task_ja_def example_env_def)
  from request_is_archived [OF p t e j]
  show ?thesis unfolding a by blast
qed


section \<open>The archive grows by one row\<close>

text \<open>An append leaves the rows of the file in place and puts one row behind them.\<close>

lemma append_csv_row_one:
  "append_csv_row (Some rows) row header = Some (rows @ [row])"
  "append_csv_row None row header = Some ((if header = [] then [] else [header]) @ [row])"
  by (simp_all add: append_csv_row_def)

end
